theory Spec2Isabelle
  imports Main "HOL-Library.Sublist"
begin

section \<open>The recursive scraper of \<^verbatim>\<open>main.py\<close>\<close>

text \<open>
  The program is one module: \<^verbatim>\<open>get_domain_folder\<close>, \<^verbatim>\<open>download_image\<close>,
  \<^verbatim>\<open>save_text\<close> and the recursive \<^verbatim>\<open>scrape\<close>, over the global set
  \<^verbatim>\<open>visitedUrls\<close>. The embedding threads the global set and a log of every observable
  action (prints, HTTP requests, directory creations, file writes) through the functions.

  What the program calls and does not define is a parameter of the model, gathered in the
  record \<open>world\<close>: the HTTP transport (\<^verbatim>\<open>requests.get\<close>), the HTML parser
  (\<^verbatim>\<open>BeautifulSoup(..., 'html.parser')\<close>) and the URL library (\<^verbatim>\<open>urlparse(...).netloc\<close>,
  \<^verbatim>\<open>urljoin\<close>). Directory creation and file writes are logged as events.

  The exceptions of the model are those of the transport, which the source catches as
  \<^verbatim>\<open>requests.RequestException\<close>, and two that it does not catch: the \<^verbatim>\<open>ValueError\<close> of
  \<^verbatim>\<open>urljoin\<close> on a malformed reference, and the \<^verbatim>\<open>IsADirectoryError\<close> of \<^verbatim>\<open>open\<close> on an
  image path that names a directory. The seed is taken to be a URL that \<^verbatim>\<open>urlparse\<close>
  accepts, and the data directory to hold nothing but what the run creates, with room and
  permission for it.

  A Python \<^verbatim>\<open>str\<close> is a \<open>string\<close>; a \<open>char\<close> stands for the code point of the same
  number (the code points below 256).
\<close>

subsection \<open>Strings and paths\<close>

text \<open>\<^verbatim>\<open>str.isspace\<close> on the code points below 256, the characters \<^verbatim>\<open>str.strip()\<close> removes.\<close>

definition isspace :: "char \<Rightarrow> bool" where
  "isspace c = (let n = (of_char c :: nat)
                in (9 \<le> n \<and> n \<le> 13) \<or> (28 \<le> n \<and> n \<le> 32) \<or> n = 133 \<or> n = 160)"

definition strip :: "string \<Rightarrow> string" where
  "strip s = rev (dropWhile isspace (rev (dropWhile isspace s)))"

text \<open>\<^verbatim>\<open>sep.join(xs)\<close>.\<close>

fun join :: "string \<Rightarrow> string list \<Rightarrow> string" where
  "join sep [] = []"
| "join sep [x] = x"
| "join sep (x # y # ys) = x @ sep @ join sep (y # ys)"

text \<open>
  \<^verbatim>\<open>s.split(sep)\<close> for a separator of one character: the piece before the first
  separator, then the pieces of what follows that separator, if there is one.
\<close>

function split :: "char \<Rightarrow> string \<Rightarrow> string list" where
  "split sep s =
     takeWhile (\<lambda>c. c \<noteq> sep) s #
       (case dropWhile (\<lambda>c. c \<noteq> sep) s of [] \<Rightarrow> [] | c # rest \<Rightarrow> split sep rest)"
  by pat_completeness auto
termination
proof (relation "measure (\<lambda>(sep, s). length s)")
  fix sep :: char and s :: string and c rest
  assume "dropWhile (\<lambda>c. c \<noteq> sep) s = c # rest"
  then have "Suc (length rest) = length (dropWhile (\<lambda>c. c \<noteq> sep) s)"
    by simp
  also have "\<dots> \<le> length s"
    by (rule length_dropWhile_le)
  finally show "((sep, rest), (sep, s)) \<in> measure (\<lambda>(sep, s). length s)"
    by simp
qed simp

declare split.simps [simp del]

text \<open>\<^verbatim>\<open>s.replace(old, new)\<close> for \<^verbatim>\<open>old\<close> and \<^verbatim>\<open>new\<close> of one character each.\<close>

definition replace :: "char \<Rightarrow> char \<Rightarrow> string \<Rightarrow> string" where
  "replace old new s = map (\<lambda>c. if c = old then new else c) s"

text \<open>
  \<^verbatim>\<open>os.path.join(a, b)\<close> and \<^verbatim>\<open>os.path.basename(p)\<close> of \<^verbatim>\<open>posixpath\<close>:
  \<^verbatim>\<open>
  if b.startswith('/'): path = b
  elif not path or path.endswith('/'): path += b
  else: path += '/' + b
  \<close>
  and \<^verbatim>\<open>p[p.rfind('/') + 1:]\<close>.
\<close>

definition os_path_join :: "string \<Rightarrow> string \<Rightarrow> string" where
  "os_path_join a b =
     (if take 1 b = ''/'' then b
      else if a = [] \<or> last a = CHR ''/'' then a @ b
      else a @ ''/'' @ b)"

definition basename :: "string \<Rightarrow> string" where
  "basename p = rev (takeWhile (\<lambda>c. c \<noteq> CHR ''/'') (rev p))"

text \<open>
  The class \<^verbatim>\<open>\w\<close> of a \<^verbatim>\<open>str\<close> pattern on the code points below 256: the ASCII letters
  and digits, the underscore, and the Latin-1 letters and numeric characters.
\<close>

definition is_word_char :: "char \<Rightarrow> bool" where
  "is_word_char c = (let n = (of_char c :: nat)
     in (48 \<le> n \<and> n \<le> 57) \<or> (65 \<le> n \<and> n \<le> 90) \<or> n = 95 \<or> (97 \<le> n \<and> n \<le> 122)
        \<or> n = 170 \<or> n = 178 \<or> n = 179 \<or> n = 181 \<or> n = 185 \<or> n = 186
        \<or> (188 \<le> n \<and> n \<le> 190) \<or> (192 \<le> n \<and> n \<le> 214)
        \<or> (216 \<le> n \<and> n \<le> 246) \<or> (248 \<le> n \<and> n \<le> 255))"

text \<open>\<^verbatim>\<open>re.sub(r"[^\w\.]", "_", s)\<close>.\<close>

definition sanitize :: "string \<Rightarrow> string" where
  "sanitize s = map (\<lambda>c. if is_word_char c \<or> c = CHR ''.'' then c else CHR ''_'') s"

text \<open>\<^verbatim>\<open>f"{depth}"\<close> for a depth counted from 0: the decimal numeral.\<close>

definition digit :: "nat \<Rightarrow> char" where
  "digit d = ''0123456789'' ! d"

fun str_nat :: "nat \<Rightarrow> string" where
  "str_nat n = (if n < 10 then [digit n] else str_nat (n div 10) @ [digit (n mod 10)])"

declare str_nat.simps [simp del]

text \<open>The number a decimal numeral stands for, as \<^verbatim>\<open>int(s)\<close> reads it.\<close>

definition decimal :: "string \<Rightarrow> nat" where
  "decimal s = foldl (\<lambda>a c. 10 * a + (of_char c - 48)) 0 s"

subsection \<open>The parsed document\<close>

text \<open>
  What \<^verbatim>\<open>BeautifulSoup\<close> returns: a forest of tags and strings. A tag has a name, a
  dictionary of attributes and its children in document order.
\<close>

datatype node = NavigableString string | Tag string "string \<rightharpoonup> string" "node list"

text \<open>The tags of a subtree in document order, the subtree's own tag first.\<close>

fun tags :: "node \<Rightarrow> node list" where
  "tags (NavigableString s) = []"
| "tags (Tag nm as cs) = Tag nm as cs # concat (map tags cs)"

fun tag_name :: "node \<Rightarrow> string" where
  "tag_name (NavigableString s) = []"
| "tag_name (Tag nm as cs) = nm"

fun tag_attr :: "node \<Rightarrow> string \<Rightarrow> string option" where
  "tag_attr (NavigableString s) k = None"
| "tag_attr (Tag nm as cs) k = as k"

text \<open>\<^verbatim>\<open>soup.find_all([...])\<close>: every tag of the document with one of the names.\<close>

definition find_all :: "string list \<Rightarrow> node list \<Rightarrow> node list" where
  "find_all names soup = filter (\<lambda>t. tag_name t \<in> set names) (concat (map tags soup))"

text \<open>\<^verbatim>\<open>soup.find_all(name, attr=True)\<close>: every tag of that name that has the attribute.\<close>

definition find_all_with :: "string \<Rightarrow> string \<Rightarrow> node list \<Rightarrow> node list" where
  "find_all_with nm k soup =
     filter (\<lambda>t. tag_name t = nm \<and> tag_attr t k \<noteq> None) (concat (map tags soup))"

text \<open>The strings below a node in document order.\<close>

fun strings :: "node \<Rightarrow> string list" where
  "strings (NavigableString s) = [s]"
| "strings (Tag nm as cs) = concat (map strings cs)"

text \<open>
  \<^verbatim>\<open>element.get_text(strip=True)\<close>: every string below the element is stripped, the
  strings that are empty after stripping are dropped, the rest is joined with the empty
  separator.
\<close>

definition get_text :: "node \<Rightarrow> string" where
  "get_text t = concat (filter (\<lambda>s. s \<noteq> []) (map strip (strings t)))"

subsection \<open>The world outside the program\<close>

text \<open>
  \<^verbatim>\<open>requests.get\<close> raises a \<^verbatim>\<open>RequestException\<close> or returns a response: its status code,
  its body, and whether reading the body breaks off (a \<^verbatim>\<open>RequestException\<close> raised while
  the body is read: inside \<^verbatim>\<open>requests.get\<close> itself without \<^verbatim>\<open>stream=True\<close>, inside
  \<^verbatim>\<open>iter_content\<close> with it). Of a response that breaks off while it is streamed, the body
  is the chunks that \<^verbatim>\<open>iter_content\<close> yields before it raises, which are the bytes the
  program gets to write.
\<close>

datatype http_result = RequestException | Response nat string bool

text \<open>\<^verbatim>\<open>response.raise_for_status()\<close> raises for the status codes 400 to 599.\<close>

definition raise_for_status :: "nat \<Rightarrow> bool" where
  "raise_for_status code = (400 \<le> code \<and> code < 600)"

text \<open>
  The request is answered as the world stands when it is made: \<open>http_get\<close> takes the number
  of actions the program has performed so far.

  \<open>netloc\<close> is \<^verbatim>\<open>urlparse(url).netloc\<close>, the network location as the URL writes it: the
  host together with the user information and the port, if any. \<open>hostname\<close> is
  \<^verbatim>\<open>urlparse(url).hostname\<close>, the host alone; the program never reads it.
  \<open>urljoin\<close> is \<^verbatim>\<open>urljoin(base, ref)\<close>, which raises \<^verbatim>\<open>ValueError\<close> on a malformed
  reference such as \<^verbatim>\<open>http://[::1\<close>: then it is \<open>None\<close>.
\<close>

record world =
  http_get :: "nat \<Rightarrow> string \<Rightarrow> http_result"
  parse_html :: "string \<Rightarrow> node list"
  netloc :: "string \<Rightarrow> string"
  hostname :: "string \<Rightarrow> string"
  urljoin :: "string \<Rightarrow> string \<Rightarrow> string option"

subsection \<open>State and exceptions\<close>

text \<open>
  The log holds, in the order they happen: the print of line 53 (\<open>Scraping\<close>), each
  \<^verbatim>\<open>os.makedirs(..., exist_ok=True)\<close>, the page request of line 67 and the print of its
  failure, the write of \<^verbatim>\<open>save_text\<close>, and for an image its request, the write of the
  chunks read and the print of the download or of the failure.
\<close>

datatype event =
    Scraping string nat
  | MakeDirs string
  | PageGet string
  | FetchFailed string
  | WriteText string string
  | ImageGet string
  | WriteImage string string
  | Downloaded string
  | ImageFailed string

record state =
  visitedUrls :: "string set"
  trace :: "event list"

definition emit :: "event \<Rightarrow> state \<Rightarrow> state" where
  "emit e st = st\<lparr>trace := trace st @ [e]\<rparr>"

definition maxRekrusion :: nat where
  "maxRekrusion = 100"

definition initial :: state where
  "initial = \<lparr>visitedUrls = {}, trace = []\<rparr>"

text \<open>
  The exceptions that no handler of the program catches: the \<^verbatim>\<open>ValueError\<close> of
  \<^verbatim>\<open>urljoin\<close>, and the \<^verbatim>\<open>IsADirectoryError\<close> of \<^verbatim>\<open>open\<close> with the path it was given.
  A function that can raise returns the exception raised, if any, beside the state it
  leaves; an exception ends every loop and every invocation it passes through.
\<close>

datatype exn = ValueError | IsADirectoryError string

subsection \<open>\<^verbatim>\<open>get_domain_folder\<close>, \<^verbatim>\<open>download_image\<close>, \<^verbatim>\<open>save_text\<close>\<close>

definition domain_folder :: "world \<Rightarrow> string \<Rightarrow> string" where
  "domain_folder W url = os_path_join ''data'' (replace (CHR ''.'') (CHR ''_'') (netloc W url))"

definition get_domain_folder :: "world \<Rightarrow> string \<Rightarrow> state \<Rightarrow> string \<times> state" where
  "get_domain_folder W url st =
     (let base_folder = domain_folder W url
      in (base_folder, emit (MakeDirs base_folder) st))"

definition image_name :: "string \<Rightarrow> string" where
  "image_name img_url = sanitize (basename (hd (split (CHR ''?'') img_url)))"

text \<open>
  \<^verbatim>\<open>open(os.path.join(folder_path, img_name), 'wb')\<close> raises \<^verbatim>\<open>IsADirectoryError\<close> when the
  name is empty, \<^verbatim>\<open>.\<close> or \<^verbatim>\<open>..\<close>: the path then names a directory. The file is opened
  after \<^verbatim>\<open>raise_for_status\<close> and before the first chunk is read.
\<close>

definition names_directory :: "string \<Rightarrow> bool" where
  "names_directory img_name \<longleftrightarrow> img_name = [] \<or> img_name = ''.'' \<or> img_name = ''..''"

definition download_image :: "world \<Rightarrow> string \<Rightarrow> string \<Rightarrow> state \<Rightarrow> exn option \<times> state" where
  "download_image W img_url folder_path st =
     (case http_get W (length (trace st)) img_url of
        RequestException \<Rightarrow> (None, emit (ImageFailed img_url) (emit (ImageGet img_url) st))
      | Response code body broken \<Rightarrow>
          if raise_for_status code
          then (None, emit (ImageFailed img_url) (emit (ImageGet img_url) st))
          else
            let img_name = image_name img_url;
                img_path = os_path_join folder_path img_name
            in if names_directory img_name
               then (Some (IsADirectoryError img_path), emit (ImageGet img_url) st)
               else
                 let st' = emit (WriteImage img_path body) (emit (ImageGet img_url) st)
                 in if broken then (None, emit (ImageFailed img_url) st')
                    else (None, emit (Downloaded img_name) st'))"

definition save_text :: "string \<Rightarrow> string \<Rightarrow> state \<Rightarrow> state" where
  "save_text content filename st = emit (WriteText filename content) st"

subsection \<open>\<^verbatim>\<open>scrape\<close>\<close>

definition text_tags :: "string list" where
  "text_tags = [''p'', ''h1'', ''h2'', ''h3'', ''h4'', ''h5'', ''h6'', ''li'']"

definition page_text :: "node list \<Rightarrow> string" where
  "page_text soup = join ''\<newline>'' (map get_text (find_all text_tags soup))"

text \<open>
  The list comprehensions of lines 82 and 87, \<^verbatim>\<open>[urljoin(url, ref) for ...]\<close>: the list of
  the joined URLs, or \<open>None\<close> when \<^verbatim>\<open>urljoin\<close> raises for one of the references.
\<close>

fun urljoin_each :: "world \<Rightarrow> string \<Rightarrow> string list \<Rightarrow> string list option" where
  "urljoin_each W url [] = Some []"
| "urljoin_each W url (ref # refs) =
     (case urljoin W url ref of
        None \<Rightarrow> None
      | Some u \<Rightarrow> (case urljoin_each W url refs of None \<Rightarrow> None | Some us \<Rightarrow> Some (u # us)))"

definition img_urls :: "world \<Rightarrow> string \<Rightarrow> node list \<Rightarrow> string list option" where
  "img_urls W url soup =
     urljoin_each W url
       (map (\<lambda>img_tag. the (tag_attr img_tag ''src'')) (find_all_with ''img'' ''src'' soup))"

definition new_urls :: "world \<Rightarrow> string \<Rightarrow> node list \<Rightarrow> string list option" where
  "new_urls W url soup =
     urljoin_each W url
       (map (\<lambda>a. the (tag_attr a ''href'')) (find_all_with ''a'' ''href'' soup))"

definition img_folder :: "string \<Rightarrow> string" where
  "img_folder base_folder = os_path_join base_folder ''img''"

definition text_folder :: "string \<Rightarrow> string" where
  "text_folder base_folder = os_path_join base_folder ''text''"

definition page_filename :: "string \<Rightarrow> nat \<Rightarrow> string" where
  "page_filename base_folder depth =
     os_path_join (text_folder base_folder) (''page_'' @ str_nat depth @ ''.txt'')"

text \<open>
  The loop \<^verbatim>\<open>for img_url in img_urls: download_image(img_url, img_folder)\<close>, left at the
  first exception.
\<close>

fun download_images :: "world \<Rightarrow> string list \<Rightarrow> string \<Rightarrow> state \<Rightarrow> exn option \<times> state" where
  "download_images W [] folder st = (None, st)"
| "download_images W (img_url # rest) folder st =
     (let r = download_image W img_url folder st
      in if fst r = None then download_images W rest folder (snd r) else r)"

text \<open>Lines 53 to 64: the print, the marking, the base folder and the two directories.\<close>

definition enter :: "world \<Rightarrow> string \<Rightarrow> nat \<Rightarrow> string option \<Rightarrow> state \<Rightarrow> string \<times> state" where
  "enter W url depth base_folder st =
     (let st1 = emit (Scraping url depth) st;
          st2 = st1\<lparr>visitedUrls := insert url (visitedUrls st1)\<rparr>;
          (base, st3) = (case base_folder of
                           None \<Rightarrow> get_domain_folder W url st2
                         | Some b \<Rightarrow> (b, st2))
      in (base, emit (MakeDirs (text_folder base)) (emit (MakeDirs (img_folder base)) st3)))"

text \<open>
  Lines 66 to 71: the request made without \<^verbatim>\<open>stream=True\<close> and \<^verbatim>\<open>raise_for_status\<close>; the
  response text when neither raises.
\<close>

definition page_response :: "http_result \<Rightarrow> string option" where
  "page_response r =
     (case r of
        RequestException \<Rightarrow> None
      | Response code body broken \<Rightarrow>
          if broken \<or> raise_for_status code then None else Some body)"

text \<open>
  Lines 74 to 84: the text file and the images of a fetched page. The text file is written
  before the image sources are joined, and they are all joined before the first image is
  requested.
\<close>

definition persist ::
  "world \<Rightarrow> string \<Rightarrow> nat \<Rightarrow> string \<Rightarrow> node list \<Rightarrow> state \<Rightarrow> exn option \<times> state" where
  "persist W url depth base soup st =
     (let st1 = save_text (page_text soup) (page_filename base depth) st
      in case img_urls W url soup of
           None \<Rightarrow> (Some ValueError, st1)
         | Some urls \<Rightarrow> download_images W urls (img_folder base) st1)"

text \<open>
  \<^verbatim>\<open>scrape\<close>, with the loop of lines 88 to 90 as \<open>scrape_links\<close>. The links are joined at
  line 87, after the images and before the first link is followed.
\<close>

function scrape :: "world \<Rightarrow> string \<Rightarrow> nat \<Rightarrow> string option \<Rightarrow> state \<Rightarrow> exn option \<times> state"
  and scrape_links :: "world \<Rightarrow> string list \<Rightarrow> nat \<Rightarrow> string \<Rightarrow> state \<Rightarrow> exn option \<times> state"
where
  "scrape W url depth base_folder st =
     (if url \<in> visitedUrls st \<or> depth \<ge> maxRekrusion then (None, st)
      else
        let base = fst (enter W url depth base_folder st);
            st1 = snd (enter W url depth base_folder st);
            r = http_get W (length (trace st1)) url;
            st2 = emit (PageGet url) st1
        in case page_response r of
             None \<Rightarrow> (None, emit (FetchFailed url) st2)
           | Some text \<Rightarrow>
               let soup = parse_html W text;
                   p = persist W url depth base soup st2
               in if fst p \<noteq> None then p
                  else case new_urls W url soup of
                         None \<Rightarrow> (Some ValueError, snd p)
                       | Some links \<Rightarrow> scrape_links W links (depth + 1) base (snd p))"
| "scrape_links W [] depth base st = (None, st)"
| "scrape_links W (link # rest) depth base st =
     (if link \<notin> visitedUrls st
      then let r = scrape W link depth (Some base) st
           in if fst r = None then scrape_links W rest depth base (snd r) else r
      else scrape_links W rest depth base st)"
  by pat_completeness auto
termination
  by (relation "measures
        [\<lambda>x. case x of Inl (W, url, depth, base_folder, st) \<Rightarrow> 2 * (maxRekrusion - depth)
                     | Inr (W, links, depth, base, st) \<Rightarrow> 2 * (maxRekrusion - depth) + 1,
         \<lambda>x. case x of Inl (W, url, depth, base_folder, st) \<Rightarrow> 0
                     | Inr (W, links, depth, base, st) \<Rightarrow> length links]")
     auto

declare scrape.simps [simp del] scrape_links.simps(2) [simp del]

text \<open>The crawl of line 94: \<^verbatim>\<open>scrape(url)\<close> with the defaults, from the empty set.\<close>

definition crawl :: "world \<Rightarrow> string \<Rightarrow> exn option \<times> state" where
  "crawl W url = scrape W url 0 None initial"

text \<open>
  The site root as the specification words it: \<^verbatim>\<open>data/<host>\<close>, the host with every
  \<^verbatim>\<open>.\<close> replaced by \<^verbatim>\<open>_\<close>.
\<close>

definition spec_site_root :: "world \<Rightarrow> string \<Rightarrow> string" where
  "spec_site_root W url = os_path_join ''data'' (replace (CHR ''.'') (CHR ''_'') (hostname W url))"

subsection \<open>Reading the log\<close>

text \<open>The URLs of the page requests of a log, in the order they were made.\<close>

fun page_get_url :: "event \<Rightarrow> string list" where
  "page_get_url (PageGet u) = [u]"
| "page_get_url e = []"

definition page_gets :: "event list \<Rightarrow> string list" where
  "page_gets tr = concat (map page_get_url tr)"

text \<open>No page was requested twice, and every requested page is marked visited.\<close>

definition fetched_once :: "state \<Rightarrow> bool" where
  "fetched_once st \<longleftrightarrow>
     distinct (page_gets (trace st)) \<and> set (page_gets (trace st)) \<subseteq> visitedUrls st"

text \<open>
  Paths are compared by their components: \<open>inside d p\<close> says that \<open>p\<close> is the directory
  \<open>d\<close> or lies below it. \<^verbatim>\<open>os.makedirs(q, exist_ok=True)\<close> creates \<open>q\<close> and every
  directory above it, so after it each \<open>d\<close> with \<open>inside d q\<close> exists.
\<close>

definition isabs :: "string \<Rightarrow> bool" where
  "isabs p = (take 1 p = ''/'')"

definition path_parts :: "string \<Rightarrow> string list" where
  "path_parts p = filter (\<lambda>s. s \<noteq> []) (split (CHR ''/'') p)"

definition inside :: "string \<Rightarrow> string \<Rightarrow> bool" where
  "inside d p \<longleftrightarrow> isabs p = isabs d \<and> prefix (path_parts d) (path_parts p)"

fun makes_directory :: "string \<Rightarrow> event \<Rightarrow> bool" where
  "makes_directory d (MakeDirs q) = inside d q"
| "makes_directory d e = False"

definition directory_exists :: "event list \<Rightarrow> string \<Rightarrow> bool" where
  "directory_exists tr d = list_ex (makes_directory d) tr"

text \<open>A file is opened with \<^verbatim>\<open>'w'\<close> or \<^verbatim>\<open>'wb'\<close>: the last write to a path is its content.\<close>

fun written :: "string \<Rightarrow> event \<Rightarrow> string option" where
  "written p (WriteText q c) = (if q = p then Some c else None)"
| "written p (WriteImage q c) = (if q = p then Some c else None)"
| "written p e = None"

fun file_content :: "event list \<Rightarrow> string \<Rightarrow> string option" where
  "file_content [] p = None"
| "file_content (e # es) p =
     (case file_content es p of Some c \<Rightarrow> Some c | None \<Rightarrow> written p e)"

text \<open>
  What an invocation at \<open>depth\<close> with the base folder \<open>base\<close> may add to the log: paths
  inside the base folder, and entries of nodes at that depth or deeper and below the maximum.
\<close>

fun stored_inside :: "string \<Rightarrow> event \<Rightarrow> bool" where
  "stored_inside base (MakeDirs p) = inside base p"
| "stored_inside base (WriteText p c) = inside base p"
| "stored_inside base (WriteImage p c) = inside base p"
| "stored_inside base e = True"

fun entered_within :: "nat \<Rightarrow> event \<Rightarrow> bool" where
  "entered_within depth (Scraping u d) = (depth \<le> d \<and> d < maxRekrusion)"
| "entered_within depth e = True"

definition node_event :: "string \<Rightarrow> nat \<Rightarrow> event \<Rightarrow> bool" where
  "node_event base depth e \<longleftrightarrow> stored_inside base e \<and> entered_within depth e"

definition grows :: "(event \<Rightarrow> bool) \<Rightarrow> state \<Rightarrow> state \<Rightarrow> bool" where
  "grows P st st' \<longleftrightarrow>
     visitedUrls st \<subseteq> visitedUrls st' \<and>
     (\<exists>evs. trace st' = trace st @ evs \<and> list_all P evs)"

subsection \<open>Example sites\<close>

text \<open>
  A site of two hosts. The seed \<^verbatim>\<open>http://a.com/\<close> holds a paragraph, an image and three
  links: to \<^verbatim>\<open>/b\<close>, which answers 404, to \<^verbatim>\<open>http://b.org/\<close>, which links back to the
  seed, and to \<^verbatim>\<open>/c\<close>.
\<close>

definition example_web :: world where
  "example_web =
     \<lparr>http_get = (\<lambda>n u.
          if u = ''http://a.com/'' then Response 200 ''A'' False
          else if u = ''http://a.com/b'' then Response 404 ''gone'' False
          else if u = ''http://b.org/'' then Response 200 ''B'' False
          else if u = ''http://a.com/c'' then Response 200 ''C'' False
          else if u = ''http://a.com/pic one.png?x=1'' then Response 200 ''PNG'' False
          else RequestException),
      parse_html = (\<lambda>b.
          if b = ''A'' then
            [Tag ''p'' Map.empty [NavigableString ''Hello''],
             Tag ''img'' [''src'' \<mapsto> ''/pic one.png?x=1''] [],
             Tag ''a'' [''href'' \<mapsto> ''/b''] [],
             Tag ''a'' [''href'' \<mapsto> ''http://b.org/''] [],
             Tag ''a'' [''href'' \<mapsto> ''/c''] []]
          else if b = ''B'' then
            [Tag ''p'' Map.empty [NavigableString ''Bee''],
             Tag ''a'' [''href'' \<mapsto> ''http://a.com/''] []]
          else if b = ''C'' then [Tag ''h1'' Map.empty [NavigableString '' Sea '']]
          else []),
      netloc = (\<lambda>u. if u = ''http://b.org/'' then ''b.org'' else ''a.com''),
      hostname = (\<lambda>u. if u = ''http://b.org/'' then ''b.org'' else ''a.com''),
      urljoin = (\<lambda>base ref.
          if take 1 ref = ''/'' then Some (''http://a.com'' @ ref) else Some ref)\<rparr>"

definition example_trace :: "event list" where
  "example_trace =
     [Scraping ''http://a.com/'' 0,
      MakeDirs ''data/a_com'', MakeDirs ''data/a_com/img'', MakeDirs ''data/a_com/text'',
      PageGet ''http://a.com/'',
      WriteText ''data/a_com/text/page_0.txt'' ''Hello'',
      ImageGet ''http://a.com/pic one.png?x=1'',
      WriteImage ''data/a_com/img/pic_one.png'' ''PNG'',
      Downloaded ''pic_one.png'',
      Scraping ''http://a.com/b'' 1,
      MakeDirs ''data/a_com/img'', MakeDirs ''data/a_com/text'',
      PageGet ''http://a.com/b'',
      FetchFailed ''http://a.com/b'',
      Scraping ''http://b.org/'' 1,
      MakeDirs ''data/a_com/img'', MakeDirs ''data/a_com/text'',
      PageGet ''http://b.org/'',
      WriteText ''data/a_com/text/page_1.txt'' ''Bee'',
      Scraping ''http://a.com/c'' 1,
      MakeDirs ''data/a_com/img'', MakeDirs ''data/a_com/text'',
      PageGet ''http://a.com/c'',
      WriteText ''data/a_com/text/page_1.txt'' ''Sea'']"

text \<open>A server that answers the seed with the status 304 and an empty body.\<close>

definition not_modified_web :: world where
  "not_modified_web =
     \<lparr>http_get = (\<lambda>n u. Response 304 [] False),
      parse_html = (\<lambda>b. []),
      netloc = (\<lambda>u. ''a.com''),
      hostname = (\<lambda>u. ''a.com''),
      urljoin = (\<lambda>base ref. Some ref)\<rparr>"



text \<open>
  The host \<^verbatim>\<open>a.com\<close>, addressed once plainly and once with user information and a port.
\<close>

definition port_web :: world where
  "port_web =
     \<lparr>http_get = (\<lambda>n u. Response 200 ''X'' False),
      parse_html = (\<lambda>b. [Tag ''p'' Map.empty [NavigableString ''Hi'']]),
      netloc = (\<lambda>u. if u = ''http://user:pw@a.com:8080/x'' then ''user:pw@a.com:8080''
                     else ''a.com''),
      hostname = (\<lambda>u. ''a.com''),
      urljoin = (\<lambda>base ref. Some ref)\<rparr>"

section \<open>Facts about the building blocks\<close>

subsection \<open>Strings and paths\<close>

lemma split_Nil: "split sep [] = [[]]"
  by (simp add: split.simps)

lemma split_sep_Cons: "split sep (sep # s) = [] # split sep s"
  by (subst split.simps) simp

lemma hd_split: "hd (split sep s) = takeWhile (\<lambda>c. c \<noteq> sep) s"
  by (subst split.simps) simp

lemma tl_split:
  "tl (split sep s) =
     (case dropWhile (\<lambda>c. c \<noteq> sep) s of [] \<Rightarrow> [] | c # rest \<Rightarrow> split sep rest)"
  by (subst split.simps) simp

lemma split_other_Cons:
  assumes "c \<noteq> sep"
  shows "split sep (c # s) = (c # hd (split sep s)) # tl (split sep s)"
proof -
  have "split sep (c # s) =
          (c # takeWhile (\<lambda>c. c \<noteq> sep) s) #
            (case dropWhile (\<lambda>c. c \<noteq> sep) s of [] \<Rightarrow> [] | c # rest \<Rightarrow> split sep rest)"
    using assms by (subst split.simps) simp
  then show ?thesis
    by (simp add: hd_split tl_split)
qed

lemma split_not_Nil: "split sep s \<noteq> []"
  by (subst split.simps) simp

lemma split_append_sep: "split sep (xs @ sep # ys) = split sep xs @ split sep ys"
proof (induction xs)
  case Nil
  show ?case by (simp add: split_Nil split_sep_Cons)
next
  case (Cons x xs)
  show ?case
  proof (cases "x = sep")
    case True
    with Cons show ?thesis by (simp add: split_sep_Cons)
  next
    case False
    with Cons show ?thesis by (simp add: split_other_Cons split_not_Nil)
  qed
qed

lemma path_parts_Nil: "path_parts [] = []"
  by (simp add: path_parts_def split_Nil)

lemma path_parts_append_sep:
  "path_parts (xs @ CHR ''/'' # ys) = path_parts xs @ path_parts ys"
  by (simp add: path_parts_def split_append_sep)

lemma path_parts_os_path_join:
  assumes "take 1 b \<noteq> ''/''"
  shows "path_parts (os_path_join a b) = path_parts a @ path_parts b"
proof (cases "a = []")
  case True
  with assms show ?thesis by (simp add: os_path_join_def path_parts_Nil)
next
  case False
  show ?thesis
  proof (cases "last a = CHR ''/''")
    case True
    with False have a: "a = butlast a @ [CHR ''/'']"
      by (metis append_butlast_last_id)
    have "path_parts (a @ b) = path_parts (butlast a @ CHR ''/'' # b)"
      by (subst a) simp
    moreover have "path_parts a = path_parts (butlast a @ CHR ''/'' # [])"
      using a by simp
    ultimately show ?thesis
      using assms False True
      by (simp add: os_path_join_def path_parts_append_sep path_parts_Nil)
  next
    case False
    with assms \<open>a \<noteq> []\<close> show ?thesis
      by (simp add: os_path_join_def path_parts_append_sep)
  qed
qed

lemma isabs_os_path_join: "take 1 b \<noteq> ''/'' \<Longrightarrow> isabs (os_path_join a b) = isabs a"
  by (cases a) (auto simp: os_path_join_def isabs_def)

lemma inside_refl: "inside d d"
  by (simp add: inside_def)

lemma inside_trans: "inside a b \<Longrightarrow> inside b c \<Longrightarrow> inside a c"
  by (auto simp: inside_def intro: prefix_order.trans)

lemma inside_os_path_join: "take 1 b \<noteq> ''/'' \<Longrightarrow> inside a (os_path_join a b)"
  by (simp add: inside_def path_parts_os_path_join isabs_os_path_join)

lemma slash_not_in_sanitize: "CHR ''/'' \<notin> set (sanitize s)"
  by (auto simp: sanitize_def is_word_char_def)

lemma take_1_slash: "take 1 s = ''/'' \<Longrightarrow> CHR ''/'' \<in> set s"
  by (cases s) auto

lemma image_name_not_abs: "take 1 (image_name u) \<noteq> ''/''"
  using slash_not_in_sanitize take_1_slash unfolding image_name_def by blast

lemma inside_img_folder: "inside base (img_folder base)"
  by (simp add: img_folder_def inside_os_path_join)

lemma inside_text_folder: "inside base (text_folder base)"
  by (simp add: text_folder_def inside_os_path_join)

lemma inside_page_filename: "inside base (page_filename base depth)"
  by (rule inside_trans [OF inside_text_folder])
     (simp add: page_filename_def inside_os_path_join)

lemma inside_image_path: "inside base (os_path_join (img_folder base) (image_name u))"
  by (rule inside_trans [OF inside_img_folder])
     (rule inside_os_path_join [OF image_name_not_abs])

subsection \<open>The log\<close>

lemma trace_emit [simp]: "trace (emit e st) = trace st @ [e]"
  by (simp add: emit_def)

lemma visitedUrls_emit [simp]: "visitedUrls (emit e st) = visitedUrls st"
  by (simp add: emit_def)

lemma page_gets_Nil [simp]: "page_gets [] = []"
  by (simp add: page_gets_def)

lemma page_gets_Cons [simp]: "page_gets (e # es) = page_get_url e @ page_gets es"
  by (simp add: page_gets_def)

lemma page_gets_append [simp]: "page_gets (xs @ ys) = page_gets xs @ page_gets ys"
  by (simp add: page_gets_def)

lemma grows_refl [simp]: "grows P st st"
  by (simp add: grows_def)

lemma grows_trans: "grows P st st' \<Longrightarrow> grows P st' st'' \<Longrightarrow> grows P st st''"
  by (fastforce simp: grows_def)

lemma grows_emit: "P e \<Longrightarrow> grows P st (emit e st)"
  by (simp add: grows_def)

lemma grows_weaken: "grows P st st' \<Longrightarrow> (\<And>e. P e \<Longrightarrow> Q e) \<Longrightarrow> grows Q st st'"
  by (auto simp: grows_def list_all_iff)

lemma grows_visitedUrls: "grows P st st' \<Longrightarrow> visitedUrls st \<subseteq> visitedUrls st'"
  by (simp add: grows_def)

lemma grows_new_events:
  "grows P st st' \<Longrightarrow> list_all P (drop (length (trace st)) (trace st'))"
  by (auto simp: grows_def)

lemma grows_prefix: "grows P st st' \<Longrightarrow> prefix (trace st) (trace st')"
  by (auto simp: grows_def)

lemma node_event_Suc: "node_event base (Suc depth) e \<Longrightarrow> node_event base depth e"
  by (cases e) (auto simp: node_event_def)

subsection \<open>\<^verbatim>\<open>download_image\<close> and the persisting of a page\<close>

lemma visitedUrls_download_image [simp]:
  "visitedUrls (snd (download_image W u f st)) = visitedUrls st"
  by (simp add: download_image_def Let_def split: http_result.splits)

lemma page_gets_download_image [simp]:
  "page_gets (trace (snd (download_image W u f st))) = page_gets (trace st)"
  by (simp add: download_image_def Let_def split: http_result.splits)

lemma visitedUrls_download_images [simp]:
  "visitedUrls (snd (download_images W us f st)) = visitedUrls st"
  by (induction us arbitrary: st) (simp_all add: Let_def)

lemma page_gets_download_images [simp]:
  "page_gets (trace (snd (download_images W us f st))) = page_gets (trace st)"
  by (induction us arbitrary: st) (simp_all add: Let_def)

lemma visitedUrls_persist [simp]:
  "visitedUrls (snd (persist W url depth base soup st)) = visitedUrls st"
  by (simp add: persist_def save_text_def Let_def split: option.splits)

lemma page_gets_persist [simp]:
  "page_gets (trace (snd (persist W url depth base soup st))) = page_gets (trace st)"
  by (simp add: persist_def save_text_def Let_def split: option.splits)

lemma grows_download_image:
  "grows (node_event base depth) st (snd (download_image W u (img_folder base) st))"
  by (auto simp: download_image_def Let_def inside_image_path grows_def node_event_def
           split: http_result.splits)

lemma grows_download_images:
  "grows (node_event base depth) st (snd (download_images W us (img_folder base) st))"
proof (induction us arbitrary: st)
  case Nil
  show ?case by simp
next
  case (Cons u us)
  show ?case
    using grows_trans [OF grows_download_image Cons.IH] grows_download_image
    by (simp add: Let_def)
qed

lemma grows_persist:
  "grows (node_event base d) st (snd (persist W url depth base soup st))"
proof -
  have "grows (node_event base d) st (save_text (page_text soup) (page_filename base depth) st)"
    unfolding save_text_def by (rule grows_emit) (simp add: inside_page_filename node_event_def)
  from this grows_trans [OF this grows_download_images] show ?thesis
    by (simp add: persist_def Let_def split: option.splits)
qed

subsection \<open>Entering a node\<close>

lemma fst_enter:
  "fst (enter W url depth bf st) = (case bf of None \<Rightarrow> domain_folder W url | Some b \<Rightarrow> b)"
  by (simp add: enter_def get_domain_folder_def Let_def split: option.splits)

lemma trace_enter:
  "trace (snd (enter W url depth bf st)) =
     trace st @ [Scraping url depth] @
       (case bf of None \<Rightarrow> [MakeDirs (domain_folder W url)] | Some b \<Rightarrow> []) @
       [MakeDirs (img_folder (fst (enter W url depth bf st))),
        MakeDirs (text_folder (fst (enter W url depth bf st)))]"
  by (simp add: enter_def get_domain_folder_def Let_def split: option.splits)

lemma visitedUrls_enter [simp]:
  "visitedUrls (snd (enter W url depth bf st)) = insert url (visitedUrls st)"
  by (simp add: enter_def get_domain_folder_def Let_def split: option.splits)

lemma page_gets_enter [simp]:
  "page_gets (trace (snd (enter W url depth bf st))) = page_gets (trace st)"
  by (simp add: trace_enter split: option.splits)

lemma grows_enter:
  "depth < maxRekrusion \<Longrightarrow>
   grows (node_event (fst (enter W url depth bf st)) depth) st (snd (enter W url depth bf st))"
  by (auto simp: grows_def trace_enter inside_img_folder inside_text_folder fst_enter inside_refl
                 node_event_def
           split: option.splits)

subsection \<open>The recursion\<close>

text \<open>The branches of a node: skipped at the gate, failed, fetched.\<close>

lemma scrape_skipped:
  "url \<in> visitedUrls st \<or> maxRekrusion \<le> depth \<Longrightarrow> scrape W url depth bf st = (None, st)"
  by (simp add: scrape.simps)

lemma scrape_failed:
  assumes "url \<notin> visitedUrls st" "depth < maxRekrusion"
    and "page_response (http_get W (length (trace (snd (enter W url depth bf st)))) url) = None"
  shows "scrape W url depth bf st =
           (None, emit (FetchFailed url) (emit (PageGet url) (snd (enter W url depth bf st))))"
  using assms by (simp add: scrape.simps Let_def)

lemma scrape_fetched:
  assumes "url \<notin> visitedUrls st" "depth < maxRekrusion"
    and "page_response (http_get W (length (trace (snd (enter W url depth bf st)))) url) = Some body"
    and "p = persist W url depth (fst (enter W url depth bf st)) (parse_html W body)
               (emit (PageGet url) (snd (enter W url depth bf st)))"
  shows "scrape W url depth bf st =
           (if fst p \<noteq> None then p
            else case new_urls W url (parse_html W body) of
                   None \<Rightarrow> (Some ValueError, snd p)
                 | Some links \<Rightarrow>
                     scrape_links W links (depth + 1) (fst (enter W url depth bf st)) (snd p))"
  using assms(1-3) unfolding assms(4) by (simp add: scrape.simps Let_def)

lemma scrape_links_Cons:
  "scrape_links W (link # rest) depth base st =
     (if link \<in> visitedUrls st then scrape_links W rest depth base st
      else if fst (scrape W link depth (Some base) st) = None
           then scrape_links W rest depth base (snd (scrape W link depth (Some base) st))
           else scrape W link depth (Some base) st)"
  by (simp add: scrape_links.simps Let_def)

lemma scrape_grows:
  "grows (node_event (case bf of None \<Rightarrow> domain_folder W url | Some b \<Rightarrow> b) depth) st
     (snd (scrape W url depth bf st))"
  "grows (node_event base depth) st (snd (scrape_links W links depth base st))"
proof (induction W url depth bf st and W links depth base st rule: scrape_scrape_links.induct)
  case (1 W url depth bf st)
  let ?base = "fst (enter W url depth bf st)"
  let ?st1 = "snd (enter W url depth bf st)"
  let ?st2 = "emit (PageGet url) ?st1"
  have base: "(case bf of None \<Rightarrow> domain_folder W url | Some b \<Rightarrow> b) = ?base"
    by (simp add: fst_enter)
  show ?case
  proof (cases "url \<in> visitedUrls st \<or> maxRekrusion \<le> depth")
    case True
    then show ?thesis by (simp add: scrape_skipped)
  next
    case False
    then have d: "depth < maxRekrusion" and u: "url \<notin> visitedUrls st" by simp_all
    have g2: "grows (node_event ?base depth) st ?st2"
      by (rule grows_trans [OF grows_enter [OF d] grows_emit]) (simp add: node_event_def)
    show ?thesis
    proof (cases "page_response (http_get W (length (trace ?st1)) url)")
      case None
      have "grows (node_event ?base depth) st (emit (FetchFailed url) ?st2)"
        by (rule grows_trans [OF g2 grows_emit]) (simp add: node_event_def)
      then show ?thesis
        by (simp add: scrape_failed [OF u d None] base)
    next
      case (Some body)
      let ?soup = "parse_html W body"
      let ?p = "persist W url depth ?base ?soup ?st2"
      note eq = scrape_fetched [OF u d Some refl]
      have g3: "grows (node_event ?base depth) st (snd ?p)"
        by (rule grows_trans [OF g2 grows_persist])
      show ?thesis
      proof (cases "fst ?p = None")
        case False
        with g3 show ?thesis by (simp add: eq base)
      next
        case ok: True
        show ?thesis
        proof (cases "new_urls W url ?soup")
          case None
          with g3 ok show ?thesis by (simp add: eq base)
        next
          case links: (Some links)
          from ok have ok': "\<not> fst ?p \<noteq> None" by simp
          have "grows (node_event ?base (depth + 1)) (snd ?p)
                  (snd (scrape_links W links (depth + 1) ?base (snd ?p)))"
            by (rule "1.IH" [OF False refl refl refl refl Some refl refl ok' links])
          then have "grows (node_event ?base depth) (snd ?p)
                  (snd (scrape_links W links (depth + 1) ?base (snd ?p)))"
            by (rule grows_weaken) (simp add: node_event_Suc)
          from grows_trans [OF g3 this] ok links show ?thesis
            by (simp add: eq base)
        qed
      qed
    qed
  qed
next
  case (2 W depth base st)
  show ?case by simp
next
  case (3 W link rest depth base st)
  show ?case
  proof (cases "link \<in> visitedUrls st")
    case True
    with "3.IH"(3) show ?thesis by (simp add: scrape_links_Cons)
  next
    case False
    let ?r = "scrape W link depth (Some base) st"
    from "3.IH"(1) [OF False] have g: "grows (node_event base depth) st (snd ?r)"
      by simp
    show ?thesis
    proof (cases "fst ?r = None")
      case True
      from grows_trans [OF g "3.IH"(2) [OF False refl True]] False True show ?thesis
        by (simp add: scrape_links_Cons)
    next
      case raised: False
      with g False show ?thesis by (auto simp: scrape_links_Cons)
    qed
  qed
qed

lemma scrape_fetched_once:
  "fetched_once st \<Longrightarrow> fetched_once (snd (scrape W url depth bf st))"
  "fetched_once st \<Longrightarrow> fetched_once (snd (scrape_links W links depth base st))"
proof (induction W url depth bf st and W links depth base st rule: scrape_scrape_links.induct)
  case (1 W url depth bf st)
  let ?base = "fst (enter W url depth bf st)"
  let ?st1 = "snd (enter W url depth bf st)"
  let ?st2 = "emit (PageGet url) ?st1"
  show ?case
  proof (cases "url \<in> visitedUrls st \<or> maxRekrusion \<le> depth")
    case True
    with "1.prems" show ?thesis by (simp add: scrape_skipped)
  next
    case False
    then have d: "depth < maxRekrusion" and u: "url \<notin> visitedUrls st" by simp_all
    have st2: "fetched_once ?st2"
      using "1.prems" u by (auto simp: fetched_once_def)
    show ?thesis
    proof (cases "page_response (http_get W (length (trace ?st1)) url)")
      case None
      with st2 show ?thesis
        by (simp add: scrape_failed [OF u d None] fetched_once_def)
    next
      case (Some body)
      let ?soup = "parse_html W body"
      let ?p = "persist W url depth ?base ?soup ?st2"
      note eq = scrape_fetched [OF u d Some refl]
      have p: "fetched_once (snd ?p)"
        using st2 by (simp add: fetched_once_def)
      show ?thesis
      proof (cases "fst ?p = None")
        case False
        with p show ?thesis by (simp add: eq)
      next
        case ok: True
        show ?thesis
        proof (cases "new_urls W url ?soup")
          case None
          with p ok show ?thesis by (simp add: eq)
        next
          case links: (Some links)
          from ok have ok': "\<not> fst ?p \<noteq> None" by simp
          from "1.IH" [OF False refl refl refl refl Some refl refl ok' links p] ok links
          show ?thesis by (simp add: eq)
        qed
      qed
    qed
  qed
next
  case (2 W depth base st)
  then show ?case by simp
next
  case (3 W link rest depth base st)
  show ?case
  proof (cases "link \<in> visitedUrls st")
    case True
    with "3.IH"(3) "3.prems" show ?thesis by (simp add: scrape_links_Cons)
  next
    case False
    let ?r = "scrape W link depth (Some base) st"
    from "3.IH"(1) [OF False "3.prems"] have r: "fetched_once (snd ?r)" .
    show ?thesis
    proof (cases "fst ?r = None")
      case True
      from "3.IH"(2) [OF False refl True r] False True show ?thesis
        by (simp add: scrape_links_Cons)
    next
      case raised: False
      with r False show ?thesis by (auto simp: scrape_links_Cons)
    qed
  qed
qed


lemma scrape_fetched_grows:
  assumes "url \<notin> visitedUrls st" and "depth < maxRekrusion"
    and "page_response (http_get W (length (trace (snd (enter W url depth bf st)))) url) = Some body"
  shows "grows (node_event (fst (enter W url depth bf st)) (Suc depth))
           (snd (persist W url depth (fst (enter W url depth bf st)) (parse_html W body)
                   (emit (PageGet url) (snd (enter W url depth bf st)))))
           (snd (scrape W url depth bf st))"
proof -
  let ?base = "fst (enter W url depth bf st)"
  let ?p = "persist W url depth ?base (parse_html W body)
              (emit (PageGet url) (snd (enter W url depth bf st)))"
  note eq = scrape_fetched [OF assms refl]
  show ?thesis
  proof (cases "fst ?p = None")
    case False
    then show ?thesis by (simp add: eq)
  next
    case ok: True
    show ?thesis
    proof (cases "new_urls W url (parse_html W body)")
      case None
      with ok show ?thesis by (simp add: eq)
    next
      case (Some links)
      have "grows (node_event ?base (Suc depth)) (snd ?p)
              (snd (scrape_links W links (Suc depth) ?base (snd ?p)))"
        by (rule scrape_grows(2))
      with ok Some show ?thesis by (simp add: eq)
    qed
  qed
qed

subsection \<open>More on the recursion\<close>

lemma length_trace_enter:
  "length (trace (snd (enter W url depth bf st))) =
     length (trace st) + (case bf of None \<Rightarrow> 4 | Some b \<Rightarrow> 3)"
  by (simp add: trace_enter split: option.splits)

lemma page_response_None:
  "page_response r = None \<longleftrightarrow>
     r = RequestException \<or>
     (\<exists>code body broken. r = Response code body broken \<and> (broken \<or> (400 \<le> code \<and> code < 600)))"
  by (cases r) (auto simp: page_response_def raise_for_status_def)

lemma scrape_marks_visited:
  assumes "depth < maxRekrusion"
  shows "url \<in> visitedUrls (snd (scrape W url depth bf st))"
proof (cases "url \<in> visitedUrls st")
  case True
  then show ?thesis by (simp add: scrape_skipped)
next
  case False
  let ?st1 = "snd (enter W url depth bf st)"
  show ?thesis
  proof (cases "page_response (http_get W (length (trace ?st1)) url)")
    case None
    show ?thesis
      by (simp add: scrape_failed [OF False assms None])
  next
    case (Some body)
    have "url \<in> visitedUrls (snd (persist W url depth (fst (enter W url depth bf st))
             (parse_html W body) (emit (PageGet url) ?st1)))"
      by simp
    with grows_visitedUrls [OF scrape_fetched_grows [OF False assms Some]] show ?thesis
      by blast
  qed
qed

lemma scrape_links_visits_all:
  "depth < maxRekrusion \<Longrightarrow> fst (scrape_links W links depth base st) = None \<Longrightarrow>
   set links \<subseteq> visitedUrls (snd (scrape_links W links depth base st))"
proof (induction links arbitrary: st)
  case Nil
  show ?case by simp
next
  case (Cons link rest)
  let ?r = "scrape W link depth (Some base) st"
  show ?case
  proof (cases "link \<in> visitedUrls st")
    case True
    then have eq: "scrape_links W (link # rest) depth base st = scrape_links W rest depth base st"
      by (simp add: scrape_links_Cons)
    from True grows_visitedUrls
      [OF scrape_grows(2) [where st = st and W = W and links = rest and depth = depth and base = base]]
    have "link \<in> visitedUrls (snd (scrape_links W rest depth base st))"
      by blast
    with Cons.IH [OF Cons.prems(1), of st] Cons.prems(2) show ?thesis
      by (simp add: eq)
  next
    case False
    show ?thesis
    proof (cases "fst ?r = None")
      case True
      with False
      have eq: "scrape_links W (link # rest) depth base st =
                  scrape_links W rest depth base (snd ?r)"
        by (simp add: scrape_links_Cons)
      have "link \<in> visitedUrls (snd ?r)"
        by (rule scrape_marks_visited [OF Cons.prems(1)])
      with grows_visitedUrls
        [OF scrape_grows(2) [where st = "snd ?r" and W = W and links = rest and depth = depth and base = base]]
      have "link \<in> visitedUrls (snd (scrape_links W rest depth base (snd ?r)))"
        by blast
      with Cons.IH [OF Cons.prems(1), of "snd ?r"] Cons.prems(2) show ?thesis
        by (simp add: eq)
    next
      case raised: False
      with False have "scrape_links W (link # rest) depth base st = ?r"
        by (auto simp: scrape_links_Cons)
      with Cons.prems(2) raised show ?thesis by simp
    qed
  qed
qed




subsection \<open>More on \<^verbatim>\<open>download_image\<close>\<close>

lemma prefix_download_image: "prefix (trace st) (trace (snd (download_image W u f st)))"
  by (simp add: download_image_def Let_def split: http_result.splits)

lemma prefix_download_images: "prefix (trace st) (trace (snd (download_images W us f st)))"
proof (induction us arbitrary: st)
  case Nil
  show ?case by simp
next
  case (Cons u us)
  from prefix_order.trans [OF prefix_download_image Cons.IH] prefix_download_image
  show ?case
    by (simp add: Let_def)
qed

lemma prefix_persist:
  "prefix (trace st @ [WriteText (page_filename base depth) (page_text soup)])
     (trace (snd (persist W url depth base soup st)))"
  using prefix_download_images
    [of "save_text (page_text soup) (page_filename base depth) st" W _ "img_folder base"]
  by (simp add: persist_def save_text_def Let_def split: option.splits)



lemma scrape_fetched_prefix:
  assumes "url \<notin> visitedUrls st" and "depth < maxRekrusion"
    and "page_response (http_get W (length (trace (snd (enter W url depth bf st)))) url) = Some body"
  shows "prefix (trace (snd (enter W url depth bf st)) @
                   [PageGet url,
                    WriteText (page_filename (fst (enter W url depth bf st)) depth)
                      (page_text (parse_html W body))])
           (trace (snd (scrape W url depth bf st)))"
proof -
  let ?base = "fst (enter W url depth bf st)"
  let ?st2 = "emit (PageGet url) (snd (enter W url depth bf st))"
  let ?p = "persist W url depth ?base (parse_html W body) ?st2"
  have "prefix (trace ?st2 @ [WriteText (page_filename ?base depth) (page_text (parse_html W body))])
          (trace (snd ?p))"
    by (rule prefix_persist)
  moreover have "prefix (trace (snd ?p)) (trace (snd (scrape W url depth bf st)))"
    by (rule grows_prefix [OF scrape_fetched_grows [OF assms]])
  ultimately show ?thesis
    using prefix_order.trans by fastforce
qed

lemma WriteText_scrape_fetched:
  assumes "url \<notin> visitedUrls st" and "depth < maxRekrusion"
    and "page_response (http_get W (length (trace (snd (enter W url depth bf st)))) url) = Some body"
  shows "WriteText (page_filename (case bf of None \<Rightarrow> domain_folder W url | Some b \<Rightarrow> b) depth)
           (page_text (parse_html W body)) \<in> set (trace (snd (scrape W url depth bf st)))"
  using set_mono_prefix [OF scrape_fetched_prefix [OF assms]] by (simp add: fst_enter)

subsection \<open>Text extraction and file names\<close>

lemma join_Cons: "xs \<noteq> [] \<Longrightarrow> join sep (x # xs) = x @ sep @ join sep xs"
  by (cases xs) simp_all

lemma split_no_sep:
  assumes "sep \<notin> set s"
  shows "split sep s = [s]"
proof -
  from assms have a: "takeWhile (\<lambda>c. c \<noteq> sep) s = s" and b: "dropWhile (\<lambda>c. c \<noteq> sep) s = []"
    by (auto simp: takeWhile_eq_all_conv dropWhile_eq_Nil_conv)
  have "split sep s =
          takeWhile (\<lambda>c. c \<noteq> sep) s #
            (case dropWhile (\<lambda>c. c \<noteq> sep) s of [] \<Rightarrow> [] | c # rest \<Rightarrow> split sep rest)"
    by (rule split.simps)
  also have "\<dots> = [s]"
    by (simp only: a b list.case)
  finally show ?thesis .
qed

lemma split_join:
  assumes "xs \<noteq> []" and "\<forall>x \<in> set xs. sep \<notin> set x"
  shows "split sep (join [sep] xs) = xs"
  using assms
proof (induction xs)
  case Nil
  then show ?case by simp
next
  case (Cons x xs)
  show ?case
  proof (cases "xs = []")
    case True
    with Cons.prems show ?thesis by (simp add: split_no_sep)
  next
    case False
    with Cons have "split sep (join [sep] xs) = xs" by simp
    with False Cons.prems show ?thesis
      by (simp add: join_Cons split_append_sep split_no_sep)
  qed
qed

lemma find_all_append:
  "find_all names (soup @ soup') = find_all names soup @ find_all names soup'"
  by (simp add: find_all_def)

lemma strip_not_space:
  assumes "strip s \<noteq> []"
  shows "\<not> isspace (hd (strip s))" and "\<not> isspace (last (strip s))"
proof -
  let ?t = "dropWhile isspace (rev (dropWhile isspace s))"
  from assms have t: "?t \<noteq> []" by (simp add: strip_def)
  then have "\<not> isspace (hd ?t)" by (rule hd_dropWhile)
  with t show "\<not> isspace (last (strip s))"
    by (simp add: strip_def last_rev)
  have d: "dropWhile isspace s \<noteq> []"
  proof
    assume "dropWhile isspace s = []"
    then have "?t = []" by (simp only: rev.simps dropWhile.simps)
    with t show False by simp
  qed
  then have hd: "\<not> isspace (hd (dropWhile isspace s))" by (rule hd_dropWhile)
  have "last ?t = last (rev (dropWhile isspace s))"
    using t by (metis last_appendR takeWhile_dropWhile_id)
  also have "\<dots> = hd (dropWhile isspace s)"
    using d by (simp add: last_rev)
  finally have "last ?t = hd (dropWhile isspace s)" .
  with hd t show "\<not> isspace (hd (strip s))"
    by (simp add: strip_def hd_rev)
qed

lemma hd_concat: "xs \<noteq> [] \<Longrightarrow> hd xs \<noteq> [] \<Longrightarrow> hd (concat xs) = hd (hd xs)"
  by (cases xs) simp_all

lemma last_concat: "xs \<noteq> [] \<Longrightarrow> last xs \<noteq> [] \<Longrightarrow> last (concat xs) = last (last xs)"
  by (induction xs rule: rev_induct) simp_all

lemma get_text_stripped:
  assumes "get_text t \<noteq> []"
  shows "\<not> isspace (hd (get_text t)) \<and> \<not> isspace (last (get_text t))"
proof -
  define ps where "ps = filter (\<lambda>s. s \<noteq> []) (map strip (strings t))"
  have pieces: "p \<noteq> [] \<and> \<not> isspace (hd p) \<and> \<not> isspace (last p)" if "p \<in> set ps" for p
    using that strip_not_space unfolding ps_def by auto
  have gt: "get_text t = concat ps"
    by (simp add: get_text_def ps_def)
  with assms have ne: "ps \<noteq> []"
    by auto
  then have mem: "hd ps \<in> set ps" "last ps \<in> set ps"
    by simp_all
  have "hd (concat ps) = hd (hd ps)"
    using ne pieces [OF mem(1)] by (simp add: hd_concat)
  moreover have "last (concat ps) = last (last ps)"
    using ne pieces [OF mem(2)] by (simp add: last_concat)
  ultimately show ?thesis
    using pieces [OF mem(1)] pieces [OF mem(2)] by (simp add: gt)
qed

lemma basename_decompose:
  "\<exists>dir. p = dir @ basename p \<and> (dir = [] \<or> last dir = CHR ''/'')"
proof -
  let ?P = "\<lambda>c. c \<noteq> CHR ''/''"
  have "rev p = takeWhile ?P (rev p) @ dropWhile ?P (rev p)"
    by simp
  then have "p = rev (dropWhile ?P (rev p)) @ basename p"
    unfolding basename_def by (metis rev_append rev_rev_ident)
  moreover have "rev (dropWhile ?P (rev p)) = [] \<or> last (rev (dropWhile ?P (rev p))) = CHR ''/''"
  proof (cases "dropWhile ?P (rev p) = []")
    case True
    then show ?thesis by simp
  next
    case False
    from hd_dropWhile [OF this] False show ?thesis
      by (simp add: last_rev)
  qed
  ultimately show ?thesis by blast
qed

lemma slash_not_in_basename: "CHR ''/'' \<notin> set (basename p)"
  unfolding basename_def using set_takeWhileD by fastforce

lemma os_path_join_data_inject:
  "os_path_join ''data'' x = os_path_join ''data'' y \<Longrightarrow> x = y"
  by (cases x; cases y) (auto simp: os_path_join_def split: if_splits)

lemma file_content_last_write: "file_content (tr @ [WriteText p c]) p = Some c"
  by (induction tr) (simp_all split: option.splits)

lemma of_char_digit: "d < 10 \<Longrightarrow> of_char (digit d) = 48 + d"
proof -
  assume "d < 10"
  then have "d \<in> {0, 1, 2, 3, 4, 5, 6, 7, 8, 9}"
    by auto
  then show ?thesis
    by (auto simp: digit_def)
qed

lemma decimal_str_nat: "decimal (str_nat n) = n"
proof (induction n rule: str_nat.induct)
  case (1 n)
  show ?case
  proof (cases "n < 10")
    case True
    then show ?thesis
      by (subst str_nat.simps) (simp add: decimal_def of_char_digit)
  next
    case False
    with "1.IH" have "decimal (str_nat (n div 10)) = n div 10"
      by simp
    with False show ?thesis
      by (subst str_nat.simps) (simp add: decimal_def of_char_digit)
  qed
qed

lemma slash_not_in_str_nat: "CHR ''/'' \<notin> set (str_nat n)"
proof (induction n rule: str_nat.induct)
  case (1 n)
  have digit: "digit d \<noteq> CHR ''/''" if "d < 10" for d
  proof -
    from that have "d \<in> {0, 1, 2, 3, 4, 5, 6, 7, 8, 9}" by auto
    then show ?thesis by (auto simp: digit_def)
  qed
  show ?case
  proof (cases "n < 10")
    case True
    with digit [of n] show ?thesis
      by (subst str_nat.simps) auto
  next
    case False
    with "1.IH" digit [of "n mod 10"] show ?thesis
      by (subst str_nat.simps) auto
  qed
qed

lemma path_parts_single: "s \<noteq> [] \<Longrightarrow> CHR ''/'' \<notin> set s \<Longrightarrow> path_parts s = [s]"
  by (simp add: path_parts_def split_no_sep)

lemma path_parts_img_folder: "path_parts (img_folder base) = path_parts base @ [''img'']"
  by (simp add: img_folder_def path_parts_os_path_join path_parts_single)

lemma path_parts_page_filename:
  "path_parts (page_filename base depth) =
     path_parts base @ [''text'', ''page_'' @ str_nat depth @ ''.txt'']"
proof -
  have "path_parts (''page_'' @ str_nat depth @ ''.txt'') = [''page_'' @ str_nat depth @ ''.txt'']"
    by (rule path_parts_single) (simp_all add: slash_not_in_str_nat)
  then show ?thesis
    by (simp add: page_filename_def text_folder_def path_parts_os_path_join path_parts_single)
qed

lemma isabs_layout:
  "isabs (img_folder base) = isabs base" "isabs (page_filename base depth) = isabs base"
  by (simp_all add: img_folder_def page_filename_def text_folder_def isabs_os_path_join)

subsection \<open>Exceptions\<close>




subsection \<open>The example crawl\<close>

lemmas evaluation =
  crawl_def initial_def maxRekrusion_def enter_def emit_def get_domain_folder_def
  domain_folder_def replace_def os_path_join_def img_folder_def text_folder_def
  page_response_def raise_for_status_def Let_def new_urls_def img_urls_def find_all_with_def
  find_all_def persist_def save_text_def page_text_def text_tags_def get_text_def strip_def
  isspace_def page_filename_def str_nat.simps digit_def download_image_def image_name_def
  names_directory_def sanitize_def basename_def is_word_char_def split.simps scrape.simps
  scrape_links.simps

lemma example_crawl:
  "crawl example_web ''http://a.com/'' =
     (None,
      \<lparr>visitedUrls = {''http://a.com/c'', ''http://b.org/'', ''http://a.com/b'', ''http://a.com/''},
       trace = example_trace\<rparr>)"
  by (simp add: evaluation example_web_def example_trace_def)

section \<open>The claims\<close>

text \<open>
  C1. Within a run no URL is requested as a page twice. A URL is marked visited before its
  request is made, so the requested pages stay distinct and inside the visited set, the
  visited set only grows, and every later invocation on a requested URL returns at the gate
  and leaves the state as it is. The crawl starts from the empty set and the empty log,
  where the assumptions hold.
\<close>

theorem no_url_fetched_twice:
  assumes "distinct (page_gets (trace st))"
    and "set (page_gets (trace st)) \<subseteq> visitedUrls st"
  shows "distinct (page_gets (trace (snd (scrape W url depth bf st)))) \<and>
         set (page_gets (trace (snd (scrape W url depth bf st))))
           \<subseteq> visitedUrls (snd (scrape W url depth bf st)) \<and>
         visitedUrls st \<subseteq> visitedUrls (snd (scrape W url depth bf st)) \<and>
         (\<forall>u \<in> set (page_gets (trace (snd (scrape W url depth bf st)))). \<forall>d b.
            scrape W u d b (snd (scrape W url depth bf st)) =
              (None, snd (scrape W url depth bf st)))"
proof -
  let ?st' = "snd (scrape W url depth bf st)"
  from assms have "fetched_once st"
    by (simp add: fetched_once_def)
  then have once: "fetched_once ?st'"
    by (rule scrape_fetched_once)
  have "visitedUrls st \<subseteq> visitedUrls ?st'"
    by (rule grows_visitedUrls [OF scrape_grows(1)])
  moreover have "scrape W u d b ?st' = (None, ?st')" if "u \<in> set (page_gets (trace ?st'))" for u d b
  proof -
    from that once have "u \<in> visitedUrls ?st'"
      by (auto simp: fetched_once_def)
    then show ?thesis
      by (simp add: scrape_skipped)
  qed
  ultimately show ?thesis
    using once by (simp add: fetched_once_def)
qed

theorem no_url_fetched_twice_example:
  "distinct (page_gets (trace initial)) \<and>
   set (page_gets (trace initial)) \<subseteq> visitedUrls initial \<and>
   page_gets (trace (snd (crawl example_web ''http://a.com/''))) =
     [''http://a.com/'', ''http://a.com/b'', ''http://b.org/'', ''http://a.com/c''] \<and>
   distinct (page_gets (trace (snd (crawl example_web ''http://a.com/'')))) \<and>
   scrape example_web ''http://a.com/'' 2 (Some ''data/a_com'')
       (snd (crawl example_web ''http://a.com/''))
     = (None, snd (crawl example_web ''http://a.com/''))"
proof -
  have h1: "distinct (page_gets (trace initial))"
    by (simp add: initial_def)
  have h2: "set (page_gets (trace initial)) \<subseteq> visitedUrls initial"
    by (simp add: initial_def)
  have gets: "page_gets (trace (snd (crawl example_web ''http://a.com/''))) =
     [''http://a.com/'', ''http://a.com/b'', ''http://b.org/'', ''http://a.com/c'']"
    by (simp add: example_crawl example_trace_def)
  from no_url_fetched_twice [OF h1 h2, of example_web "''http://a.com/''" 0 None] gets h1 h2
  show ?thesis
    by (simp add: crawl_def [symmetric])
qed

text \<open>
  C2. An invocation on a URL of the visited set, or at a depth that has reached the maximum
  of 100, returns the state it was given: no request, no directory, no file, no change of
  the visited set. No node is ever entered at the maximum depth or beyond.
\<close>

theorem gate_skips_without_effect:
  "(url \<in> visitedUrls st \<or> depth \<ge> maxRekrusion \<longrightarrow> scrape W url depth bf st = (None, st)) \<and>
   maxRekrusion = 100 \<and>
   (\<forall>u d. Scraping u d \<in> set (drop (length (trace st)) (trace (snd (scrape W url depth bf st))))
      \<longrightarrow> depth \<le> d \<and> d < maxRekrusion)"
proof -
  have "list_all (node_event (case bf of None \<Rightarrow> domain_folder W url | Some b \<Rightarrow> b) depth)
          (drop (length (trace st)) (trace (snd (scrape W url depth bf st))))"
    by (rule grows_new_events [OF scrape_grows(1)])
  then have "depth \<le> d \<and> d < maxRekrusion"
    if "Scraping u d \<in> set (drop (length (trace st)) (trace (snd (scrape W url depth bf st))))"
    for u d
    using that by (auto simp: list_all_iff node_event_def)
  then show ?thesis
    by (simp add: scrape_skipped maxRekrusion_def)
qed

theorem gate_skips_without_effect_example:
  "''http://a.com/'' \<in> visitedUrls \<lparr>visitedUrls = {''http://a.com/''}, trace = []\<rparr> \<and>
   scrape example_web ''http://a.com/'' 0 None \<lparr>visitedUrls = {''http://a.com/''}, trace = []\<rparr>
     = (None, \<lparr>visitedUrls = {''http://a.com/''}, trace = []\<rparr>) \<and>
   (100::nat) \<ge> maxRekrusion \<and>
   scrape example_web ''http://a.com/'' 100 None initial = (None, initial) \<and>
   Scraping ''http://a.com/c'' 1
     \<in> set (drop (length (trace initial))
              (trace (snd (scrape example_web ''http://a.com/'' 0 None initial)))) \<and>
   (1::nat) < maxRekrusion"
proof -
  have seen: "''http://a.com/'' \<in> visitedUrls \<lparr>visitedUrls = {''http://a.com/''}, trace = []\<rparr>"
    by simp
  have deep: "(100::nat) \<ge> maxRekrusion"
    by (simp add: maxRekrusion_def)
  have entry: "Scraping ''http://a.com/c'' 1
     \<in> set (drop (length (trace initial))
              (trace (snd (scrape example_web ''http://a.com/'' 0 None initial))))"
    using example_crawl by (simp add: crawl_def example_trace_def initial_def)
  from gate_skips_without_effect
         [of "''http://a.com/''" "\<lparr>visitedUrls = {''http://a.com/''}, trace = []\<rparr>" 0 example_web None]
       gate_skips_without_effect [of "''http://a.com/''" initial 100 example_web None]
       gate_skips_without_effect [of "''http://a.com/''" initial 0 example_web None]
       seen deep entry
  show ?thesis
    by blast
qed

text \<open>
  C3 (amended). A node whose page request fails, that is, raises a transport error or is
  answered with a status from 400 to 599, adds to the log only its entry, its directories,
  the request and the failure message: no text file, no image request, no entry of another
  node. It stays in the visited set and returns without an exception, and the loop over
  the links of its parent goes on with the next link from there.
\<close>

theorem failed_fetch_ends_node_only:
  assumes "url \<notin> visitedUrls st" and "depth < maxRekrusion"
    and "r = http_get W (length (trace st) + (case bf of None \<Rightarrow> 4 | Some b \<Rightarrow> 3)) url"
    and "r = RequestException \<or>
         (\<exists>code body broken. r = Response code body broken \<and>
            (broken \<or> (400 \<le> code \<and> code < 600)))"
  shows "trace (snd (scrape W url depth bf st)) =
           trace st @ [Scraping url depth] @
             (case bf of None \<Rightarrow> [MakeDirs (domain_folder W url)] | Some b \<Rightarrow> []) @
             [MakeDirs (img_folder (case bf of None \<Rightarrow> domain_folder W url | Some b \<Rightarrow> b)),
              MakeDirs (text_folder (case bf of None \<Rightarrow> domain_folder W url | Some b \<Rightarrow> b)),
              PageGet url, FetchFailed url] \<and>
         visitedUrls (snd (scrape W url depth bf st)) = insert url (visitedUrls st) \<and>
         fst (scrape W url depth bf st) = None \<and>
         (\<forall>rest base. bf = Some base \<longrightarrow>
            scrape_links W (url # rest) depth base st =
              scrape_links W rest depth base (snd (scrape W url depth bf st)))"
proof -
  from assms(3,4)
  have "page_response (http_get W (length (trace (snd (enter W url depth bf st)))) url) = None"
    by (simp add: length_trace_enter page_response_None)
  from scrape_failed [OF assms(1,2) this] assms(1) show ?thesis
    by (auto simp: trace_enter fst_enter scrape_links_Cons)
qed

theorem failed_fetch_ends_node_only_example:
  "''http://a.com/b'' \<notin> visitedUrls initial \<and> 1 < maxRekrusion \<and>
   http_get example_web (length (trace initial) + 3) ''http://a.com/b'' = Response 404 ''gone'' False \<and>
   (400::nat) \<le> 404 \<and> (404::nat) < 600 \<and>
   trace (snd (scrape example_web ''http://a.com/b'' 1 (Some ''data/a_com'') initial)) =
     [Scraping ''http://a.com/b'' 1, MakeDirs ''data/a_com/img'', MakeDirs ''data/a_com/text'',
      PageGet ''http://a.com/b'', FetchFailed ''http://a.com/b''] \<and>
   visitedUrls (snd (scrape example_web ''http://a.com/b'' 1 (Some ''data/a_com'') initial))
     = {''http://a.com/b''} \<and>
   fst (scrape example_web ''http://a.com/b'' 1 (Some ''data/a_com'') initial) = None \<and>
   scrape_links example_web [''http://a.com/b'', ''http://a.com/c''] 1 ''data/a_com'' initial =
     scrape_links example_web [''http://a.com/c''] 1 ''data/a_com''
       (snd (scrape example_web ''http://a.com/b'' 1 (Some ''data/a_com'') initial))"
proof -
  have h1: "''http://a.com/b'' \<notin> visitedUrls initial"
    by (simp add: initial_def)
  have h2: "1 < maxRekrusion"
    by (simp add: maxRekrusion_def)
  have h3: "Response 404 ''gone'' False =
      http_get example_web (length (trace initial)
        + (case Some ''data/a_com'' of None \<Rightarrow> 4 | Some b \<Rightarrow> 3)) ''http://a.com/b''"
    by (simp add: example_web_def)
  have h4: "Response 404 ''gone'' False = RequestException \<or>
         (\<exists>code body broken. Response 404 ''gone'' False = Response code body broken \<and>
            (broken \<or> (400 \<le> code \<and> code < 600)))"
    by (intro disjI2 exI [of _ 404] exI [of _ "''gone''"] exI [of _ False]) simp
  from failed_fetch_ends_node_only [OF h1 h2 h3 h4] h1 h2 h3
  show ?thesis
    by (simp add: initial_def img_folder_def text_folder_def os_path_join_def)
qed

text \<open>
  C3 as stated counts every status outside 200 to 299 as a failure. A page answered with
  the status 304 is not one for the program: \<^verbatim>\<open>raise_for_status\<close> does not raise, and the
  text file is written.
\<close>

theorem status_304_page_is_persisted:
  "http_get not_modified_web 4 ''http://a.com/'' = Response 304 [] False \<and>
   trace (snd (crawl not_modified_web ''http://a.com/'')) =
     [Scraping ''http://a.com/'' 0,
      MakeDirs ''data/a_com'', MakeDirs ''data/a_com/img'', MakeDirs ''data/a_com/text'',
      PageGet ''http://a.com/'',
      WriteText ''data/a_com/text/page_0.txt'' []]"
  by (simp add: evaluation not_modified_web_def)

text \<open>
  C10. An invocation that passes the gate creates its directories before it requests the
  page: the base folder when none was handed down, then \<^verbatim>\<open>img\<close> and \<^verbatim>\<open>text\<close>. From then on
  the base folder and the two directories exist. When the request fails the log ends with
  the failure message, so the three directories are all such a node leaves on disk. A
  skipped invocation leaves the state as it is.
\<close>

theorem directories_created_before_fetch:
  assumes "url \<notin> visitedUrls st" and "depth < maxRekrusion"
    and "base = (case bf of None \<Rightarrow> domain_folder W url | Some b \<Rightarrow> b)"
    and "dirs = (case bf of None \<Rightarrow> [MakeDirs base] | Some b \<Rightarrow> []) @
                [MakeDirs (img_folder base), MakeDirs (text_folder base)]"
  shows "prefix (trace st @ [Scraping url depth] @ dirs @ [PageGet url])
           (trace (snd (scrape W url depth bf st))) \<and>
         directory_exists (trace (snd (scrape W url depth bf st))) base \<and>
         directory_exists (trace (snd (scrape W url depth bf st))) (img_folder base) \<and>
         directory_exists (trace (snd (scrape W url depth bf st))) (text_folder base) \<and>
         (page_response (http_get W (length (trace st @ [Scraping url depth] @ dirs)) url) = None
            \<longrightarrow> trace (snd (scrape W url depth bf st)) =
                   trace st @ [Scraping url depth] @ dirs @ [PageGet url, FetchFailed url]) \<and>
         (\<forall>u d b s. u \<in> visitedUrls s \<or> maxRekrusion \<le> d \<longrightarrow> scrape W u d b s = (None, s))"
proof -
  let ?st1 = "snd (enter W url depth bf st)"
  let ?st2 = "emit (PageGet url) ?st1"
  let ?st' = "snd (scrape W url depth bf st)"
  have base: "fst (enter W url depth bf st) = base"
    by (simp add: fst_enter assms(3))
  have tr1: "trace ?st1 = trace st @ [Scraping url depth] @ dirs"
    by (simp add: trace_enter base assms(3,4) split: option.splits)
  have pre: "prefix (trace ?st2) (trace ?st')"
  proof (cases "page_response (http_get W (length (trace ?st1)) url)")
    case None
    show ?thesis
      by (simp add: scrape_failed [OF assms(1,2) None])
  next
    case (Some body)
    from grows_prefix [OF grows_trans [OF grows_persist scrape_fetched_grows [OF assms(1,2) Some]]]
    show ?thesis .
  qed
  then have p: "prefix (trace st @ [Scraping url depth] @ dirs @ [PageGet url]) (trace ?st')"
    by (simp add: tr1)
  have mem: "MakeDirs (img_folder base) \<in> set (trace ?st')" "MakeDirs (text_folder base) \<in> set (trace ?st')"
    using set_mono_prefix [OF p] by (auto simp: assms(4))
  have ex: "directory_exists (trace ?st') d" if "MakeDirs q \<in> set (trace ?st')" "inside d q" for d q
    using that unfolding directory_exists_def list_ex_iff by force
  have failed: "trace ?st' = trace st @ [Scraping url depth] @ dirs @ [PageGet url, FetchFailed url]"
    if "page_response (http_get W (length (trace st @ [Scraping url depth] @ dirs)) url) = None"
  proof -
    from that have "page_response (http_get W (length (trace ?st1)) url) = None"
      by (simp only: tr1)
    from scrape_failed [OF assms(1,2) this] show ?thesis
      by (simp add: tr1)
  qed
  from p ex [OF mem(1) inside_img_folder] ex [OF mem(1) inside_refl] ex [OF mem(2) inside_refl]
    failed
  show ?thesis
    by (simp add: scrape_skipped)
qed

theorem directories_created_before_fetch_example:
  "''http://a.com/b'' \<notin> visitedUrls initial \<and> 1 < maxRekrusion \<and>
   page_response (http_get example_web 3 ''http://a.com/b'') = None \<and>
   trace (snd (scrape example_web ''http://a.com/b'' 1 (Some ''data/a_com'') initial)) =
     [Scraping ''http://a.com/b'' 1, MakeDirs ''data/a_com/img'', MakeDirs ''data/a_com/text'',
      PageGet ''http://a.com/b'', FetchFailed ''http://a.com/b''] \<and>
   directory_exists
     (trace (snd (scrape example_web ''http://a.com/b'' 1 (Some ''data/a_com'') initial)))
     ''data/a_com'' \<and>
   ''http://a.com/'' \<in> visitedUrls (snd (crawl example_web ''http://a.com/'')) \<and>
   scrape example_web ''http://a.com/'' 0 None (snd (crawl example_web ''http://a.com/'')) =
     (None, snd (crawl example_web ''http://a.com/''))"
proof -
  have h1: "''http://a.com/b'' \<notin> visitedUrls initial"
    by (simp add: initial_def)
  have h2: "1 < maxRekrusion"
    by (simp add: maxRekrusion_def)
  have h3: "page_response (http_get example_web n ''http://a.com/b'') = None" for n
    by (simp add: example_web_def page_response_def raise_for_status_def)
  have h4: "''http://a.com/'' \<in> visitedUrls (snd (crawl example_web ''http://a.com/''))"
    by (simp add: example_crawl)
  from directories_created_before_fetch [OF h1 h2 refl refl, of example_web "Some ''data/a_com''"]
    h1 h2 h3 h4
  show ?thesis
    by (simp add: initial_def img_folder_def text_folder_def os_path_join_def
          directory_exists_def inside_def isabs_def path_parts_def split.simps)
qed







text \<open>
  C4 (amended). Everything an invocation creates or writes lies inside the base folder it
  works with: the one handed down, or for the seed the root directory of the seed's network
  location. So all the artifacts of a crawl lie inside the root directory of the seed's
  network location, also those of pages of other hosts. The root directory is a function
  of the network location, the host as the URL writes it together with the user
  information and the port, and two network locations have the same root directory exactly
  when they are equal once every \<^verbatim>\<open>.\<close> is replaced by \<^verbatim>\<open>_\<close>.
\<close>

theorem artifacts_stored_under_seed_root:
  "list_all (stored_inside (case bf of None \<Rightarrow> domain_folder W url | Some b \<Rightarrow> b))
     (drop (length (trace st)) (trace (snd (scrape W url depth bf st)))) \<and>
   list_all (stored_inside (domain_folder W seed)) (trace (snd (crawl W seed))) \<and>
   (netloc W u = netloc W v \<longrightarrow> domain_folder W u = domain_folder W v) \<and>
   (domain_folder W u = domain_folder W v \<longleftrightarrow>
      replace (CHR ''.'') (CHR ''_'') (netloc W u) = replace (CHR ''.'') (CHR ''_'') (netloc W v))"
proof -
  have inv: "list_all (stored_inside (case bf of None \<Rightarrow> domain_folder W url | Some b \<Rightarrow> b))
     (drop (length (trace st)) (trace (snd (scrape W url depth bf st))))" for url depth bf st
  proof -
    have "list_all (node_event (case bf of None \<Rightarrow> domain_folder W url | Some b \<Rightarrow> b) depth)
            (drop (length (trace st)) (trace (snd (scrape W url depth bf st))))"
      by (rule grows_new_events [OF scrape_grows(1)])
    then show ?thesis
      by (simp add: list_all_iff node_event_def)
  qed
  from inv [where url = seed and depth = 0 and bf = None and st = initial]
  have crawl: "list_all (stored_inside (domain_folder W seed)) (trace (snd (crawl W seed)))"
    by (simp add: crawl_def initial_def)
  have same: "netloc W u = netloc W v \<longrightarrow> domain_folder W u = domain_folder W v"
    by (simp add: domain_folder_def)
  have share: "domain_folder W u = domain_folder W v \<longleftrightarrow>
      replace (CHR ''.'') (CHR ''_'') (netloc W u) = replace (CHR ''.'') (CHR ''_'') (netloc W v)"
  proof
    assume "domain_folder W u = domain_folder W v"
    then show "replace (CHR ''.'') (CHR ''_'') (netloc W u) = replace (CHR ''.'') (CHR ''_'') (netloc W v)"
      unfolding domain_folder_def by (rule os_path_join_data_inject)
  next
    assume "replace (CHR ''.'') (CHR ''_'') (netloc W u) = replace (CHR ''.'') (CHR ''_'') (netloc W v)"
    then show "domain_folder W u = domain_folder W v"
      by (simp add: domain_folder_def)
  qed
  show ?thesis
    by (intro conjI) (rule inv crawl same share)+
qed

theorem artifacts_stored_under_seed_root_example:
  "list_all (stored_inside ''data/a_com'') example_trace \<and>
   netloc example_web ''http://a.com/b'' = netloc example_web ''http://a.com/c'' \<and>
   domain_folder example_web ''http://a.com/b'' = domain_folder example_web ''http://a.com/c''"
proof -
  have h: "netloc example_web ''http://a.com/b'' = netloc example_web ''http://a.com/c''"
    by (simp add: example_web_def)
  have d: "domain_folder example_web ''http://a.com/'' = ''data/a_com''"
    by (simp add: example_web_def domain_folder_def replace_def os_path_join_def)
  from artifacts_stored_under_seed_root
         [where bf = None and W = example_web and url = "''http://a.com/''" and st = initial
            and depth = 0 and seed = "''http://a.com/''" and u = "''http://a.com/b''"
            and v = "''http://a.com/c''"] h d example_crawl
  show ?thesis
    by simp
qed

text \<open>
  C4 as stated stores a page under the root directory of its own host, one directory for
  each host. The page \<^verbatim>\<open>http://b.org/\<close>, reached from the seed \<^verbatim>\<open>http://a.com/\<close>, is written
  below \<^verbatim>\<open>data/a_com\<close>, and nothing is stored inside \<^verbatim>\<open>data/b_org\<close>. The two different
  network locations \<^verbatim>\<open>a.b\<close> and \<^verbatim>\<open>a_b\<close> have the same root directory. The URLs
  \<^verbatim>\<open>http://a.com/\<close> and \<^verbatim>\<open>http://user:pw@a.com:8080/x\<close> have the same host and different
  root directories.
\<close>

theorem page_of_other_host_stored_under_seed_root:
  "netloc example_web ''http://b.org/'' = ''b.org'' \<and>
   domain_folder example_web ''http://b.org/'' = ''data/b_org'' \<and>
   page_text (parse_html example_web ''B'') = ''Bee'' \<and>
   trace (snd (crawl example_web ''http://a.com/'')) = example_trace \<and>
   WriteText ''data/a_com/text/page_1.txt'' ''Bee'' \<in> set example_trace \<and>
   \<not> inside ''data/b_org'' ''data/a_com/text/page_1.txt'' \<and>
   \<not> directory_exists example_trace ''data/b_org'' \<and>
   ''a.b'' \<noteq> ''a_b'' \<and>
   replace (CHR ''.'') (CHR ''_'') ''a.b'' = replace (CHR ''.'') (CHR ''_'') ''a_b'' \<and>
   hostname port_web ''http://a.com/'' = hostname port_web ''http://user:pw@a.com:8080/x'' \<and>
   domain_folder port_web ''http://a.com/'' = ''data/a_com'' \<and>
   domain_folder port_web ''http://user:pw@a.com:8080/x'' = ''data/user:pw@a_com:8080''"
  by (simp add: example_crawl)
     (simp add: example_web_def example_trace_def domain_folder_def replace_def
        os_path_join_def page_text_def find_all_def text_tags_def get_text_def strip_def
        isspace_def inside_def isabs_def path_parts_def split.simps directory_exists_def
        port_web_def)

text \<open>
  C5 (amended). The extracted text joins, with single newlines and in document order, the
  stripped text of every \<^verbatim>\<open>p\<close>, \<^verbatim>\<open>h1\<close> to \<^verbatim>\<open>h6\<close> and \<^verbatim>\<open>li\<close> tag of the document, one entry
  for each tag, also for a tag without text: when no entry holds a newline itself, the
  lines of the text are exactly the entries, the empty ones included. An entry that is not
  empty neither starts nor ends with a space character.
\<close>

theorem page_text_has_one_line_per_element:
  "page_text soup = join ''\<newline>'' (map get_text (find_all text_tags soup)) \<and>
   set (find_all text_tags soup) =
     {t \<in> set (concat (map tags soup)).
        tag_name t \<in> {''p'', ''h1'', ''h2'', ''h3'', ''h4'', ''h5'', ''h6'', ''li''}} \<and>
   find_all text_tags (soup @ soup') = find_all text_tags soup @ find_all text_tags soup' \<and>
   (find_all text_tags soup \<noteq> [] \<and>
    (\<forall>t \<in> set (find_all text_tags soup). CHR ''\<newline>'' \<notin> set (get_text t))
    \<longrightarrow> split (CHR ''\<newline>'') (page_text soup) = map get_text (find_all text_tags soup)) \<and>
   (get_text t \<noteq> [] \<longrightarrow> \<not> isspace (hd (get_text t)) \<and> \<not> isspace (last (get_text t)))"
proof -
  have lines: "split (CHR ''\<newline>'') (page_text soup) = map get_text (find_all text_tags soup)"
    if "find_all text_tags soup \<noteq> []"
       "\<forall>t \<in> set (find_all text_tags soup). CHR ''\<newline>'' \<notin> set (get_text t)"
    unfolding page_text_def using that by (intro split_join) auto
  have tags: "set (find_all text_tags soup) =
     {t \<in> set (concat (map tags soup)).
        tag_name t \<in> {''p'', ''h1'', ''h2'', ''h3'', ''h4'', ''h5'', ''h6'', ''li''}}"
    unfolding find_all_def text_tags_def by (simp del: set_concat)
  from lines tags get_text_stripped [of t] show ?thesis
    by (simp only: page_text_def find_all_append) blast
qed

theorem page_text_has_one_line_per_element_example:
  "find_all text_tags
     [Tag ''p'' Map.empty [NavigableString ''a''], Tag ''p'' Map.empty [],
      Tag ''li'' Map.empty [NavigableString '' b '']] \<noteq> [] \<and>
   map get_text (find_all text_tags
     [Tag ''p'' Map.empty [NavigableString ''a''], Tag ''p'' Map.empty [],
      Tag ''li'' Map.empty [NavigableString '' b '']]) = [''a'', [], ''b''] \<and>
   split (CHR ''\<newline>'') (page_text
     [Tag ''p'' Map.empty [NavigableString ''a''], Tag ''p'' Map.empty [],
      Tag ''li'' Map.empty [NavigableString '' b '']]) = [''a'', [], ''b''] \<and>
   get_text (Tag ''li'' Map.empty [NavigableString '' b '']) \<noteq> [] \<and>
   \<not> isspace (hd (get_text (Tag ''li'' Map.empty [NavigableString '' b ''])))"
proof -
  let ?soup = "[Tag ''p'' Map.empty [NavigableString ''a''], Tag ''p'' Map.empty [],
      Tag ''li'' Map.empty [NavigableString '' b '']]"
  have found: "find_all text_tags ?soup = ?soup"
    by (simp add: find_all_def text_tags_def)
  have texts: "map get_text ?soup = [''a'', [], ''b'']"
    by (simp add: get_text_def strip_def isspace_def)
  have h1: "find_all text_tags ?soup \<noteq> []"
    by (simp only: found) simp
  have h2: "\<forall>t \<in> set (find_all text_tags ?soup). CHR ''\<newline>'' \<notin> set (get_text t)"
    by (simp only: found) (simp add: get_text_def strip_def isspace_def)
  have h3: "get_text (Tag ''li'' Map.empty [NavigableString '' b '']) \<noteq> []"
    by (simp add: get_text_def strip_def isspace_def)
  from page_text_has_one_line_per_element
         [where soup = ?soup and soup' = "[]"
            and t = "Tag ''li'' Map.empty [NavigableString '' b '']"] h1 h2 h3
  have "split (CHR ''\<newline>'') (page_text ?soup) = map get_text (find_all text_tags ?soup)"
    and "\<not> isspace (hd (get_text (Tag ''li'' Map.empty [NavigableString '' b ''])))"
    by blast+
  with h1 h2 h3 show ?thesis
    by (simp only: found texts) simp
qed

text \<open>
  C5 as stated lets a tag without text leave no trace in the output. Between two
  paragraphs an empty paragraph leaves an empty line.
\<close>

theorem empty_element_leaves_blank_line:
  "get_text (Tag ''p'' Map.empty []) = [] \<and>
   page_text [Tag ''p'' Map.empty [NavigableString ''a''], Tag ''p'' Map.empty [],
              Tag ''p'' Map.empty [NavigableString ''b'']] = ''a\<newline>\<newline>b'' \<and>
   page_text [Tag ''p'' Map.empty [NavigableString ''a''], Tag ''p'' Map.empty [],
              Tag ''p'' Map.empty [NavigableString ''b'']] \<noteq> ''a\<newline>b''"
  by (simp add: page_text_def find_all_def text_tags_def get_text_def strip_def isspace_def)

text \<open>
  C6 (amended). The stored file name of an image is derived from its URL in three steps:
  what precedes the first \<^verbatim>\<open>?\<close> is kept, of that the part after the last \<^verbatim>\<open>/\<close> is taken,
  and in it every character that is neither a word character (letter, digit, underscore)
  nor a period is replaced by \<^verbatim>\<open>_\<close>. The name has the length of that last segment and
  holds only word characters and periods. So \<^verbatim>\<open>photo name.jpg?v=2\<close> is stored as
  \<^verbatim>\<open>photo_name.jpg\<close>, and \<^verbatim>\<open>photo name?v=2.jpg\<close>, whose extension is part of the query
  string, as \<^verbatim>\<open>photo_name\<close>.
\<close>

theorem image_name_is_sanitized_last_segment:
  "image_name img_url =
     map (\<lambda>c. if is_word_char c \<or> c = CHR ''.'' then c else CHR ''_'')
       (basename (takeWhile (\<lambda>c. c \<noteq> CHR ''?'') img_url)) \<and>
   (\<exists>dir. takeWhile (\<lambda>c. c \<noteq> CHR ''?'') img_url =
            dir @ basename (takeWhile (\<lambda>c. c \<noteq> CHR ''?'') img_url) \<and>
          (dir = [] \<or> last dir = CHR ''/'')) \<and>
   CHR ''/'' \<notin> set (basename (takeWhile (\<lambda>c. c \<noteq> CHR ''?'') img_url)) \<and>
   CHR ''?'' \<notin> set (takeWhile (\<lambda>c. c \<noteq> CHR ''?'') img_url) \<and>
   list_all (\<lambda>c. is_word_char c \<or> c = CHR ''.'') (image_name img_url) \<and>
   image_name ''photo name.jpg?v=2'' = ''photo_name.jpg'' \<and>
   image_name ''photo name?v=2.jpg'' = ''photo_name''"
proof -
  have "list_all (\<lambda>c. is_word_char c \<or> c = CHR ''.'') (sanitize s)" for s
    by (induction s) (simp_all add: sanitize_def is_word_char_def)
  then have "list_all (\<lambda>c. is_word_char c \<or> c = CHR ''.'') (image_name img_url)"
    by (simp add: image_name_def)
  moreover have "CHR ''?'' \<notin> set (takeWhile (\<lambda>c. c \<noteq> CHR ''?'') img_url)"
    using set_takeWhileD by fastforce
  moreover have "image_name ''photo name.jpg?v=2'' = ''photo_name.jpg''"
    and "image_name ''photo name?v=2.jpg'' = ''photo_name''"
    by (simp_all add: image_name_def hd_split sanitize_def basename_def is_word_char_def)
  ultimately show ?thesis
    using basename_decompose [of "takeWhile (\<lambda>c. c \<noteq> CHR ''?'') img_url"]
      slash_not_in_basename [of "takeWhile (\<lambda>c. c \<noteq> CHR ''?'') img_url"]
    by (simp add: image_name_def hd_split sanitize_def)
qed

theorem image_name_is_sanitized_last_segment_example:
  "image_name ''http://a.com/img/pic one.png?x=1'' = ''pic_one.png'' \<and>
   basename (takeWhile (\<lambda>c. c \<noteq> CHR ''?'') ''http://a.com/img/pic one.png?x=1'') = ''pic one.png''"
proof -
  have "basename (takeWhile (\<lambda>c. c \<noteq> CHR ''?'') ''http://a.com/img/pic one.png?x=1'') = ''pic one.png''"
    by (simp add: basename_def)
  with image_name_is_sanitized_last_segment [of "''http://a.com/img/pic one.png?x=1''"]
  show ?thesis
    by (simp add: is_word_char_def)
qed

text \<open>
  C6 as stated maps \<^verbatim>\<open>photo name?v=2.jpg\<close> to \<^verbatim>\<open>photo_name.jpg\<close>. The query string starts
  at the \<^verbatim>\<open>?\<close> and takes the extension with it.
\<close>

theorem photo_name_loses_extension:
  "image_name ''photo name?v=2.jpg'' = ''photo_name'' \<and>
   image_name ''photo name?v=2.jpg'' \<noteq> ''photo_name.jpg''"
  by (simp add: image_name_def hd_split sanitize_def basename_def is_word_char_def)

text \<open>
  C7 (amended). The root directory of a URL is \<^verbatim>\<open>data/\<close> followed by its network location
  (the host as the URL writes it, together with the user information and the port; it
  holds no \<^verbatim>\<open>/\<close>) with every \<^verbatim>\<open>.\<close> replaced by \<^verbatim>\<open>_\<close>. Below any base folder the image
  directory is its \<^verbatim>\<open>img\<close>, and the text file of a page is \<^verbatim>\<open>text/page_<depth>.txt\<close>, with
  the depth in decimal; for the root directory of a network location that is not empty
  these are the root followed by \<^verbatim>\<open>/img\<close> and by \<^verbatim>\<open>/text/page_<depth>.txt\<close>. The name of
  the text file is made of the base folder and the depth alone: whatever page is fetched at
  that depth with that base folder, its text is written to that file, and a write replaces
  what the file held.
\<close>

theorem on_disk_layout:
  assumes "CHR ''/'' \<notin> set (netloc W url)"
    and "loc = map (\<lambda>c. if c = CHR ''.'' then CHR ''_'' else c) (netloc W url)"
    and "root = domain_folder W url"
  shows "root = ''data/'' @ loc \<and>
         fst (get_domain_folder W url st) = root \<and>
         path_parts root = ''data'' # (if loc = [] then [] else [loc]) \<and>
         path_parts (img_folder base) = path_parts base @ [''img''] \<and>
         isabs (img_folder base) = isabs base \<and>
         path_parts (page_filename base depth) =
           path_parts base @ [''text'', ''page_'' @ str_nat depth @ ''.txt''] \<and>
         isabs (page_filename base depth) = isabs base \<and>
         decimal (str_nat depth) = depth \<and>
         (netloc W url \<noteq> [] \<longrightarrow>
            img_folder root = root @ ''/img'' \<and>
            page_filename root depth = root @ ''/text/page_'' @ str_nat depth @ ''.txt'') \<and>
         (\<forall>page bf s body.
            page \<notin> visitedUrls s \<and> depth < maxRekrusion \<and>
            page_response (http_get W (length (trace s) + (case bf of None \<Rightarrow> 4 | Some b \<Rightarrow> 3)) page)
              = Some body
            \<longrightarrow> WriteText (page_filename (case bf of None \<Rightarrow> domain_folder W page | Some b \<Rightarrow> b) depth)
                  (page_text (parse_html W body))
                \<in> set (trace (snd (scrape W page depth bf s)))) \<and>
         (\<forall>tr c. file_content (tr @ [WriteText (page_filename base depth) c])
                    (page_filename base depth) = Some c)"
proof -
  have loc: "loc = replace (CHR ''.'') (CHR ''_'') (netloc W url)"
    by (simp add: assms(2) replace_def)
  from assms(1) have no_slash: "CHR ''/'' \<notin> set loc"
    by (auto simp: assms(2))
  then have rel: "take 1 loc \<noteq> ''/''"
    using take_1_slash by blast
  then have root: "root = ''data/'' @ loc"
    by (simp add: assms(3) domain_folder_def loc [symmetric] os_path_join_def)
  have parts: "path_parts root = ''data'' # (if loc = [] then [] else [loc])"
  proof -
    have "path_parts root = path_parts ''data'' @ path_parts loc"
      unfolding assms(3) domain_folder_def loc [symmetric]
      by (rule path_parts_os_path_join [OF rel])
    with no_slash show ?thesis
      by (simp add: path_parts_single path_parts_Nil)
  qed
  have plain: "img_folder root = root @ ''/img'' \<and>
            page_filename root depth = root @ ''/text/page_'' @ str_nat depth @ ''.txt''"
    if "netloc W url \<noteq> []"
  proof -
    from that have "loc \<noteq> []"
      by (simp add: assms(2))
    then have "last loc \<in> set loc" by simp
    with no_slash have "last loc \<noteq> CHR ''/''" by metis
    with \<open>loc \<noteq> []\<close> have "last root \<noteq> CHR ''/''"
      by (simp add: root)
    then show ?thesis
      by (simp add: img_folder_def page_filename_def text_folder_def os_path_join_def root)
  qed
  have written: "WriteText (page_filename (case bf of None \<Rightarrow> domain_folder W page | Some b \<Rightarrow> b) depth)
                  (page_text (parse_html W body))
                \<in> set (trace (snd (scrape W page depth bf s)))"
    if "page \<notin> visitedUrls s" "depth < maxRekrusion"
       "page_response (http_get W (length (trace s) + (case bf of None \<Rightarrow> 4 | Some b \<Rightarrow> 3)) page)
              = Some body" for page bf s body
  proof -
    from that(3) have "page_response (http_get W (length (trace (snd (enter W page depth bf s)))) page) = Some body"
      by (simp add: length_trace_enter)
    from WriteText_scrape_fetched [OF that(1,2) this] show ?thesis .
  qed
  have "fst (get_domain_folder W url st) = root"
    by (simp add: get_domain_folder_def Let_def assms(3))
  with root parts plain written show ?thesis
    by (simp add: path_parts_img_folder path_parts_page_filename isabs_layout
          file_content_last_write decimal_str_nat)
qed

theorem on_disk_layout_example:
  "CHR ''/'' \<notin> set (netloc example_web ''http://a.com/'') \<and>
   netloc example_web ''http://a.com/'' \<noteq> [] \<and>
   domain_folder example_web ''http://a.com/'' = ''data/a_com'' \<and>
   img_folder ''data/a_com'' = ''data/a_com/img'' \<and>
   page_filename ''data/a_com'' 1 = ''data/a_com/text/page_1.txt'' \<and>
   ''http://a.com/c'' \<notin> visitedUrls initial \<and> 1 < maxRekrusion \<and>
   page_response (http_get example_web (length (trace initial) + 3) ''http://a.com/c'') = Some ''C'' \<and>
   WriteText ''data/a_com/text/page_1.txt'' ''Sea''
     \<in> set (trace (snd (scrape example_web ''http://a.com/c'' 1 (Some ''data/a_com'') initial))) \<and>
   trace (snd (crawl example_web ''http://a.com/'')) = example_trace \<and>
   WriteText ''data/a_com/text/page_1.txt'' ''Bee'' \<in> set example_trace \<and>
   file_content example_trace ''data/a_com/text/page_1.txt'' = Some ''Sea''"
proof -
  have h1: "CHR ''/'' \<notin> set (netloc example_web ''http://a.com/'')"
    and h2: "''a_com'' = map (\<lambda>c. if c = CHR ''.'' then CHR ''_'' else c) (netloc example_web ''http://a.com/'')"
    and h3: "netloc example_web ''http://a.com/'' \<noteq> []"
    by (simp_all add: example_web_def)
  have root: "''data/a_com'' = domain_folder example_web ''http://a.com/''"
    by (simp add: example_web_def domain_folder_def replace_def os_path_join_def)
  have g1: "''http://a.com/c'' \<notin> visitedUrls initial"
    by (simp add: initial_def)
  have g2: "1 < maxRekrusion"
    by (simp add: maxRekrusion_def)
  have g3: "page_response (http_get example_web (length (trace initial) + 3) ''http://a.com/c'') = Some ''C''"
    by (simp add: example_web_def page_response_def raise_for_status_def)
  have sea: "page_text (parse_html example_web ''C'') = ''Sea''"
    by (simp add: example_web_def page_text_def find_all_def text_tags_def get_text_def
          strip_def isspace_def)
  have one: "str_nat 1 = ''1''"
    by (simp add: str_nat.simps digit_def)
  have disk: "WriteText ''data/a_com/text/page_1.txt'' ''Bee'' \<in> set example_trace"
    "file_content example_trace ''data/a_com/text/page_1.txt'' = Some ''Sea''"
    by (simp_all add: example_trace_def)
  note layout = on_disk_layout [OF h1 h2 root, where depth = 1 and st = initial]
  note plain = layout [THEN conjunct2, THEN conjunct2, THEN conjunct2, THEN conjunct2,
    THEN conjunct2, THEN conjunct2, THEN conjunct2, THEN conjunct2, THEN conjunct1,
    rule_format, OF h3]
  note handed = layout [THEN conjunct2, THEN conjunct2, THEN conjunct2, THEN conjunct2,
    THEN conjunct2, THEN conjunct2, THEN conjunct2, THEN conjunct2, THEN conjunct2,
    THEN conjunct1, rule_format,
    of "''http://a.com/c''" initial "Some ''data/a_com''" "''C''"]
  have "img_folder ''data/a_com'' = ''data/a_com/img''"
    using plain by simp
  moreover have page: "page_filename ''data/a_com'' 1 = ''data/a_com/text/page_1.txt''"
    using plain by (simp only: one) simp
  moreover have "WriteText ''data/a_com/text/page_1.txt'' ''Sea''
     \<in> set (trace (snd (scrape example_web ''http://a.com/c'' 1 (Some ''data/a_com'') initial)))"
  proof -
    from handed g1 g2 g3
    have "WriteText (page_filename ''data/a_com'' 1) (page_text (parse_html example_web ''C''))
      \<in> set (trace (snd (scrape example_web ''http://a.com/c'' 1 (Some ''data/a_com'') initial)))"
      by simp
    then show ?thesis
      by (simp only: page sea)
  qed
  ultimately show ?thesis
    using h1 h3 root g1 g2 g3 disk example_crawl
    by (simp add: initial_def)
qed

text \<open>
  C7 as stated names the root directory after the host. The URL
  \<^verbatim>\<open>http://user:pw@a.com:8080/x\<close> has the host \<^verbatim>\<open>a.com\<close> and the network location
  \<^verbatim>\<open>user:pw@a.com:8080\<close>: its root directory is \<^verbatim>\<open>data/user:pw@a_com:8080\<close>, not
  \<^verbatim>\<open>data/a_com\<close>, and that is where its crawl stores the page.
\<close>

theorem site_root_holds_userinfo_and_port:
  "hostname port_web ''http://user:pw@a.com:8080/x'' = ''a.com'' \<and>
   spec_site_root port_web ''http://user:pw@a.com:8080/x'' = ''data/a_com'' \<and>
   netloc port_web ''http://user:pw@a.com:8080/x'' = ''user:pw@a.com:8080'' \<and>
   domain_folder port_web ''http://user:pw@a.com:8080/x'' = ''data/user:pw@a_com:8080'' \<and>
   crawl port_web ''http://user:pw@a.com:8080/x'' =
     (None,
      \<lparr>visitedUrls = {''http://user:pw@a.com:8080/x''},
       trace = [Scraping ''http://user:pw@a.com:8080/x'' 0,
                MakeDirs ''data/user:pw@a_com:8080'',
                MakeDirs ''data/user:pw@a_com:8080/img'',
                MakeDirs ''data/user:pw@a_com:8080/text'',
                PageGet ''http://user:pw@a.com:8080/x'',
                WriteText ''data/user:pw@a_com:8080/text/page_0.txt'' ''Hi'']\<rparr>)"
  by (simp add: evaluation port_web_def spec_site_root_def)

end
